theory Spec2Isabelle
  imports Main "HOL-Library.AList"
begin

section \<open>JavaScript values and strings\<close>

text \<open>
  The agent works on loosely typed JavaScript values: parsed model output, tool inputs,
  tool results and chat-history turns. They are modelled by one tree type. A missing
  property (\<^verbatim>\<open>undefined\<close>) is \<open>None\<close> of an option type.

  Scope of the value model. A string is a list of code units in the range 0..255; numbers
  are the integers, printed in decimal (the exponent form JavaScript uses from 1e21 on is
  not modelled). An object is the list of its own properties in enumeration order.
\<close>

datatype json =
    JNull
  | JBool bool
  | JNum int
  | JStr string
  | JArr "json list"
  | JObj "(string \<times> json) list"

definition dq :: char where "dq = CHR 0x22"
definition bslash :: char where "bslash = CHR 0x5C"

text \<open>White space of \<^verbatim>\<open>String.prototype.trim\<close> and of the regular-expression class \<^verbatim>\<open>\s\<close>.\<close>

definition is_js_space :: "char \<Rightarrow> bool" where
  "is_js_space c = (c = CHR 0x09 \<or> c = CHR 0x0A \<or> c = CHR 0x0B \<or> c = CHR 0x0C
     \<or> c = CHR 0x0D \<or> c = CHR 0x20 \<or> c = CHR 0xA0)"

definition js_trim :: "string \<Rightarrow> string" where
  "js_trim s = rev (dropWhile is_js_space (rev (dropWhile is_js_space s)))"

definition lower_char :: "char \<Rightarrow> char" where
  "lower_char c = (let n = (of_char c :: nat) in
     if (65 \<le> n \<and> n \<le> 90) \<or> (192 \<le> n \<and> n \<le> 222 \<and> n \<noteq> 215) then char_of (n + 32) else c)"

definition js_toLowerCase :: "string \<Rightarrow> string" where
  "js_toLowerCase s = map lower_char s"

fun js_join :: "string \<Rightarrow> string list \<Rightarrow> string" where
  "js_join sep [] = []"
| "js_join sep [x] = x"
| "js_join sep (x # y # ys) = x @ sep @ js_join sep (y # ys)"

definition startsWith :: "string \<Rightarrow> string \<Rightarrow> bool" where
  "startsWith s p = (take (length p) s = p)"

definition endsWith :: "string \<Rightarrow> string \<Rightarrow> bool" where
  "endsWith s p = (length p \<le> length s \<and> drop (length s - length p) s = p)"

subsection \<open>Numbers as decimal text\<close>

definition digit_char :: "int \<Rightarrow> char" where
  "digit_char d = char_of (nat (48 + d))"

definition is_digit :: "char \<Rightarrow> bool" where
  "is_digit c = (48 \<le> (of_char c :: nat) \<and> (of_char c :: nat) \<le> 57)"

definition digit_value :: "char \<Rightarrow> int" where
  "digit_value c = int (of_char c) - 48"

function show_dec :: "int \<Rightarrow> string" where
  "show_dec n = (if n < 10 then [digit_char n] else show_dec (n div 10) @ [digit_char (n mod 10)])"
  by pat_completeness auto
termination
  by (relation "measure nat") auto

declare show_dec.simps [simp del]

definition show_int :: "int \<Rightarrow> string" where
  "show_int i = (if i < 0 then CHR ''-'' # show_dec (- i) else show_dec i)"

definition read_dec :: "string \<Rightarrow> int" where
  "read_dec ds = foldl (\<lambda>a c. 10 * a + digit_value c) 0 ds"

subsection \<open>Truthiness, typeof, String(), property access\<close>

fun js_truthy :: "json \<Rightarrow> bool" where
  "js_truthy JNull = False"
| "js_truthy (JBool b) = b"
| "js_truthy (JNum n) = (n \<noteq> 0)"
| "js_truthy (JStr s) = (s \<noteq> [])"
| "js_truthy (JArr xs) = True"
| "js_truthy (JObj ms) = True"

fun js_typeof :: "json \<Rightarrow> string" where
  "js_typeof JNull = ''object''"
| "js_typeof (JBool b) = ''boolean''"
| "js_typeof (JNum n) = ''number''"
| "js_typeof (JStr s) = ''string''"
| "js_typeof (JArr xs) = ''object''"
| "js_typeof (JObj ms) = ''object''"

text \<open>
  \<^verbatim>\<open>String(v)\<close>: an array prints its elements separated by commas, with \<^verbatim>\<open>null\<close>
  elements printed as the empty string; a plain object prints as \<^verbatim>\<open>[object Object]\<close>.
\<close>

fun js_String :: "json \<Rightarrow> string"
  and js_String_items :: "json list \<Rightarrow> string"
  and js_String_item :: "json \<Rightarrow> string"
where
  "js_String JNull = ''null''"
| "js_String (JBool b) = (if b then ''true'' else ''false'')"
| "js_String (JNum n) = show_int n"
| "js_String (JStr s) = s"
| "js_String (JArr xs) = js_String_items xs"
| "js_String (JObj ms) = ''[object Object]''"
| "js_String_items [] = []"
| "js_String_items [x] = js_String_item x"
| "js_String_items (x # y # ys) = js_String_item x @ '','' @ js_String_items (y # ys)"
| "js_String_item JNull = []"
| "js_String_item (JBool b) = js_String (JBool b)"
| "js_String_item (JNum n) = js_String (JNum n)"
| "js_String_item (JStr s) = s"
| "js_String_item (JArr xs) = js_String_items xs"
| "js_String_item (JObj ms) = ''[object Object]''"

text \<open>
  Property read \<^verbatim>\<open>v.name\<close> for the names the agent reads (\<^verbatim>\<open>type\<close>, \<^verbatim>\<open>content\<close>,
  \<^verbatim>\<open>tool\<close>, \<^verbatim>\<open>input\<close>, \<^verbatim>\<open>ok\<close>, \<^verbatim>\<open>output\<close>, \<^verbatim>\<open>error\<close>, \<^verbatim>\<open>metadata\<close>,
  \<^verbatim>\<open>prompt\<close>, \<^verbatim>\<open>response\<close>, \<^verbatim>\<open>value\<close>, \<^verbatim>\<open>text\<close>): only a plain object can have them.
\<close>

fun js_prop :: "json \<Rightarrow> string \<Rightarrow> json option" where
  "js_prop (JObj ms) k = map_of ms k"
| "js_prop v k = None"

text \<open>\<^verbatim>\<open>x || d\<close> for a possibly missing \<open>x\<close>.\<close>

definition js_or :: "json option \<Rightarrow> json \<Rightarrow> json" where
  "js_or x d = (case x of None \<Rightarrow> d | Some v \<Rightarrow> if js_truthy v then v else d)"

subsection \<open>Property order of objects\<close>

text \<open>
  An object enumerates its array-index keys first, in ascending numeric order, and then
  its other string keys in insertion order. \<open>obj_put\<close> is the definition of one property
  on an object given by its property list.
\<close>

definition is_array_index :: "string \<Rightarrow> bool" where
  "is_array_index k = (k \<noteq> [] \<and> list_all is_digit k \<and> (if hd k = CHR ''0'' then k = ''0'' else True)
     \<and> read_dec k \<le> 4294967294)"

fun obj_insert_index :: "string \<Rightarrow> json \<Rightarrow> (string \<times> json) list \<Rightarrow> (string \<times> json) list" where
  "obj_insert_index k v [] = [(k, v)]"
| "obj_insert_index k v (p # ps) =
     (if is_array_index (fst p) \<and> read_dec (fst p) < read_dec k
      then p # obj_insert_index k v ps else (k, v) # p # ps)"

definition obj_put :: "string \<Rightarrow> json \<Rightarrow> (string \<times> json) list \<Rightarrow> (string \<times> json) list" where
  "obj_put k v ms =
     (if map_of ms k \<noteq> None then AList.update k v ms
      else if is_array_index k then obj_insert_index k v ms
      else ms @ [(k, v)])"

definition obj_of_members :: "(string \<times> json) list \<Rightarrow> (string \<times> json) list" where
  "obj_of_members ms = foldl (\<lambda>acc kv. obj_put (fst kv) (snd kv) acc) [] ms"

section \<open>JSON.stringify\<close>

definition hex_char :: "nat \<Rightarrow> char" where
  "hex_char d = (if d < 10 then char_of (48 + d) else char_of (87 + d))"

definition quote_char :: "char \<Rightarrow> string" where
  "quote_char c =
     (if c = dq then [bslash, dq]
      else if c = bslash then [bslash, bslash]
      else if c = CHR 0x08 then [bslash, CHR ''b'']
      else if c = CHR 0x0C then [bslash, CHR ''f'']
      else if c = CHR 0x0A then [bslash, CHR ''n'']
      else if c = CHR 0x0D then [bslash, CHR ''r'']
      else if c = CHR 0x09 then [bslash, CHR ''t'']
      else if (of_char c :: nat) < 32
        then [bslash, CHR ''u'', CHR ''0'', CHR ''0'',
              hex_char ((of_char c :: nat) div 16), hex_char ((of_char c :: nat) mod 16)]
      else [c])"

definition quote_string :: "string \<Rightarrow> string" where
  "quote_string s = dq # concat (map quote_char s) @ [dq]"

fun JSON_stringify :: "json \<Rightarrow> string"
  and stringify_elements :: "json list \<Rightarrow> string"
  and stringify_members :: "(string \<times> json) list \<Rightarrow> string"
where
  "JSON_stringify JNull = ''null''"
| "JSON_stringify (JBool b) = (if b then ''true'' else ''false'')"
| "JSON_stringify (JNum n) = show_int n"
| "JSON_stringify (JStr s) = quote_string s"
| "JSON_stringify (JArr xs) = CHR ''['' # stringify_elements xs @ '']''"
| "JSON_stringify (JObj ms) = CHR ''{'' # stringify_members ms @ ''}''"
| "stringify_elements [] = []"
| "stringify_elements [x] = JSON_stringify x"
| "stringify_elements (x # y # ys) = JSON_stringify x @ CHR '','' # stringify_elements (y # ys)"
| "stringify_members [] = []"
| "stringify_members [(k, v)] = quote_string k @ CHR '':'' # JSON_stringify v"
| "stringify_members ((k, v) # m # ms) =
     quote_string k @ CHR '':'' # JSON_stringify v @ CHR '','' # stringify_members (m # ms)"

section \<open>JSON.parse\<close>

text \<open>
  A recursive-descent reader of the JSON grammar. A failure (\<^verbatim>\<open>SyntaxError\<close>) is \<open>None\<close>.
  Literals with a fraction or an exponent denote floating-point numbers and escapes of a
  code unit above 255 denote characters outside the string model: both are \<open>None\<close> here.
  The recursion is on a counter that bounds the number of nested calls; \<open>JSON_parse\<close>
  starts it at \<open>2 * length text + 1\<close>, which is shown below to be enough for every text.
\<close>

definition is_json_ws :: "char \<Rightarrow> bool" where
  "is_json_ws c = (c = CHR 0x20 \<or> c = CHR 0x09 \<or> c = CHR 0x0A \<or> c = CHR 0x0D)"

definition skip_ws :: "string \<Rightarrow> string" where
  "skip_ws cs = dropWhile is_json_ws cs"

definition hex_value :: "char \<Rightarrow> nat option" where
  "hex_value c = (let n = (of_char c :: nat) in
     if 48 \<le> n \<and> n \<le> 57 then Some (n - 48)
     else if 97 \<le> n \<and> n \<le> 102 then Some (n - 87)
     else if 65 \<le> n \<and> n \<le> 70 then Some (n - 55)
     else None)"

definition unicode_escape :: "char \<Rightarrow> char \<Rightarrow> char \<Rightarrow> char \<Rightarrow> char option" where
  "unicode_escape a b c d =
     (case (hex_value a, hex_value b, hex_value c, hex_value d) of
        (Some x, Some y, Some z, Some w) \<Rightarrow>
          (if x = 0 \<and> y = 0 then Some (char_of (16 * z + w)) else None)
      | _ \<Rightarrow> None)"

definition simple_escape :: "char \<Rightarrow> char option" where
  "simple_escape e =
     (if e = dq then Some dq
      else if e = bslash then Some bslash
      else if e = CHR ''/'' then Some (CHR ''/'')
      else if e = CHR ''b'' then Some (CHR 0x08)
      else if e = CHR ''f'' then Some (CHR 0x0C)
      else if e = CHR ''n'' then Some (CHR 0x0A)
      else if e = CHR ''r'' then Some (CHR 0x0D)
      else if e = CHR ''t'' then Some (CHR 0x09)
      else None)"

definition cons_result :: "'a \<Rightarrow> ('a list \<times> string) option \<Rightarrow> ('a list \<times> string) option" where
  "cons_result x r = (case r of None \<Rightarrow> None | Some (xs, rest) \<Rightarrow> Some (x # xs, rest))"

text \<open>The characters of a string literal after its opening quote, up to the closing one.\<close>

fun parse_chars :: "string \<Rightarrow> (string \<times> string) option" where
  "parse_chars [] = None"
| "parse_chars (c # cs) =
     (if c = dq then Some ([], cs)
      else if c = bslash then
        (case cs of
           [] \<Rightarrow> None
         | e # r \<Rightarrow>
             if e = CHR ''u'' then
               (case r of
                  a # b # x # y # r' \<Rightarrow>
                    (case unicode_escape a b x y of
                       None \<Rightarrow> None
                     | Some ch \<Rightarrow> cons_result ch (parse_chars r'))
                | _ \<Rightarrow> None)
             else
               (case simple_escape e of
                  None \<Rightarrow> None
                | Some ch \<Rightarrow> cons_result ch (parse_chars r)))
      else if (of_char c :: nat) < 32 then None
      else cons_result c (parse_chars cs))"

definition parse_digits :: "string \<Rightarrow> (int \<times> string) option" where
  "parse_digits cs =
     (let ds = takeWhile is_digit cs in
      if ds = [] then None
      else if hd ds = CHR ''0'' then Some (0, tl cs)
      else Some (read_dec ds, dropWhile is_digit cs))"

definition parse_number :: "string \<Rightarrow> (json \<times> string) option" where
  "parse_number cs =
     (let neg = (cs \<noteq> [] \<and> hd cs = CHR ''-'') in
      case parse_digits (if neg then tl cs else cs) of
        None \<Rightarrow> None
      | Some (n, rest) \<Rightarrow>
          if rest \<noteq> [] \<and> (hd rest = CHR ''.'' \<or> hd rest = CHR ''e'' \<or> hd rest = CHR ''E'')
          then None
          else Some (JNum (if neg then - n else n), rest))"

fun parse_value :: "nat \<Rightarrow> string \<Rightarrow> (json \<times> string) option"
  and parse_elements :: "nat \<Rightarrow> string \<Rightarrow> (json list \<times> string) option"
  and parse_members :: "nat \<Rightarrow> string \<Rightarrow> ((string \<times> json) list \<times> string) option"
where
  "parse_value 0 cs = None"
| "parse_value (Suc n) cs =
     (case skip_ws cs of
        [] \<Rightarrow> None
      | c # r \<Rightarrow>
          if c = CHR ''{'' then
            (case skip_ws r of
               [] \<Rightarrow> None
             | d # r' \<Rightarrow>
                 if d = CHR ''}'' then Some (JObj [], r')
                 else (case parse_members n (d # r') of
                         None \<Rightarrow> None
                       | Some (ms, rest) \<Rightarrow> Some (JObj (obj_of_members ms), rest)))
          else if c = CHR ''['' then
            (case skip_ws r of
               [] \<Rightarrow> None
             | d # r' \<Rightarrow>
                 if d = CHR '']'' then Some (JArr [], r')
                 else (case parse_elements n (d # r') of
                         None \<Rightarrow> None
                       | Some (xs, rest) \<Rightarrow> Some (JArr xs, rest)))
          else if c = dq then
            (case parse_chars r of
               None \<Rightarrow> None
             | Some (s, rest) \<Rightarrow> Some (JStr s, rest))
          else if startsWith (c # r) ''true'' then Some (JBool True, drop 4 (c # r))
          else if startsWith (c # r) ''false'' then Some (JBool False, drop 5 (c # r))
          else if startsWith (c # r) ''null'' then Some (JNull, drop 4 (c # r))
          else parse_number (c # r))"
| "parse_elements 0 cs = None"
| "parse_elements (Suc n) cs =
     (case parse_value n cs of
        None \<Rightarrow> None
      | Some (v, r) \<Rightarrow>
          (case skip_ws r of
             [] \<Rightarrow> None
           | c # r' \<Rightarrow>
               if c = CHR '','' then cons_result v (parse_elements n r')
               else if c = CHR '']'' then Some ([v], r')
               else None))"
| "parse_members 0 cs = None"
| "parse_members (Suc n) cs =
     (case skip_ws cs of
        [] \<Rightarrow> None
      | c # r \<Rightarrow>
          if c \<noteq> dq then None
          else
            (case parse_chars r of
               None \<Rightarrow> None
             | Some (k, r1) \<Rightarrow>
                 (case skip_ws r1 of
                    [] \<Rightarrow> None
                  | c1 # r2 \<Rightarrow>
                      if c1 \<noteq> CHR '':'' then None
                      else
                        (case parse_value n r2 of
                           None \<Rightarrow> None
                         | Some (v, r3) \<Rightarrow>
                             (case skip_ws r3 of
                                [] \<Rightarrow> None
                              | c3 # r4 \<Rightarrow>
                                  if c3 = CHR '','' then cons_result (k, v) (parse_members n r4)
                                  else if c3 = CHR ''}'' then Some ([(k, v)], r4)
                                  else None)))))"

definition JSON_parse :: "string \<Rightarrow> json option" where
  "JSON_parse text =
     (case parse_value (2 * length text + 1) text of
        None \<Rightarrow> None
      | Some (v, rest) \<Rightarrow> if skip_ws rest = [] then Some v else None)"

section \<open>Action protocol (src/agent/actionProtocol.js)\<close>

datatype action = FinalAction string | ToolAction string json

text \<open>\<^verbatim>\<open>typeof x === 'string' ? x : ''\<close> for a possibly missing \<open>x\<close>.\<close>

definition string_or_empty :: "json option \<Rightarrow> string" where
  "string_or_empty x = (case x of Some (JStr s) \<Rightarrow> s | _ \<Rightarrow> [])"

definition normalizeAction :: "json \<Rightarrow> action option" where
  "normalizeAction val =
     (if \<not> js_truthy val \<or> js_typeof val \<noteq> ''object'' then None
      else
        let ty = js_toLowerCase (js_trim (js_String (js_or (js_prop val ''type'') (JStr []))))
        in
          if ty = ''final'' then Some (FinalAction (string_or_empty (js_prop val ''content'')))
          else if ty = ''tool'' then
            (let tool = (case js_prop val ''tool'' of Some (JStr s) \<Rightarrow> js_trim s | _ \<Rightarrow> [])
             in
               if tool = [] then None
               else Some (ToolAction tool
                      (case js_prop val ''input'' of
                         None \<Rightarrow> JObj []
                       | Some v \<Rightarrow> if js_truthy v \<and> js_typeof v = ''object'' then v else JObj [])))
          else None)"

subsection \<open>extractFirstJsonObject\<close>

text \<open>
  The loop over \<open>index\<close> with its four variables. \<open>depth\<close> is an integer: a closing brace
  at depth 0 makes it negative. \<open>startIndex\<close> is \<open>-1\<close> until the first opening brace at
  depth 0.
\<close>

definition slice :: "string \<Rightarrow> int \<Rightarrow> nat \<Rightarrow> string" where
  "slice text from until = take (until - nat from) (drop (nat from) text)"

fun scanObject :: "string \<Rightarrow> string \<Rightarrow> nat \<Rightarrow> int \<Rightarrow> bool \<Rightarrow> bool \<Rightarrow> int \<Rightarrow> string option" where
  "scanObject text [] index depth inString escapeNext startIndex = None"
| "scanObject text (char # rest) index depth inString escapeNext startIndex =
     (if escapeNext then scanObject text rest (index + 1) depth inString False startIndex
      else if char = bslash then scanObject text rest (index + 1) depth inString True startIndex
      else if char = dq then scanObject text rest (index + 1) depth (\<not> inString) escapeNext startIndex
      else if inString then scanObject text rest (index + 1) depth inString escapeNext startIndex
      else if char = CHR ''{'' then
        scanObject text rest (index + 1) (depth + 1) inString escapeNext
          (if depth = 0 then int index else startIndex)
      else if char = CHR ''}'' then
        (if depth - 1 = 0 \<and> startIndex \<noteq> - 1 then Some (slice text startIndex (index + 1))
         else scanObject text rest (index + 1) (depth - 1) inString escapeNext startIndex)
      else scanObject text rest (index + 1) depth inString escapeNext startIndex)"

definition extractFirstJsonObject :: "string \<Rightarrow> string option" where
  "extractFirstJsonObject text = scanObject text text 0 0 False False (- 1)"

subsection \<open>Fenced blocks\<close>

text \<open>
  The regular expression \<^verbatim>\<open>/```(?:json)?\s*([\s\S]*?)```/gi\<close>: a match starts at the first
  fence, takes \<^verbatim>\<open>json\<close> (any letter case) and white space when they follow, and ends with
  the first fence after them; the search for the next match resumes behind it.
\<close>

fun split_fence :: "string \<Rightarrow> (string \<times> string) option" where
  "split_fence [] = None"
| "split_fence (c # cs) =
     (if startsWith (c # cs) ''```'' then Some ([], drop 2 cs)
      else (case split_fence cs of None \<Rightarrow> None | Some (pre, post) \<Rightarrow> Some (c # pre, post)))"

definition skip_json_word :: "string \<Rightarrow> string" where
  "skip_json_word s = (if js_toLowerCase (take 4 s) = ''json'' then drop 4 s else s)"

lemma split_fence_length:
  "split_fence s = Some (pre, post) \<Longrightarrow> length post < length s"
  by (induction s arbitrary: pre) (auto simp: startsWith_def split: if_splits option.splits)

lemma skip_json_word_length: "length (skip_json_word s) \<le> length s"
  by (simp add: skip_json_word_def)

function fencedMatches :: "string \<Rightarrow> string list" where
  "fencedMatches text =
     (case split_fence text of
        None \<Rightarrow> []
      | Some (pre, post) \<Rightarrow>
          (case split_fence (dropWhile is_js_space (skip_json_word post)) of
             None \<Rightarrow> []
           | Some (body, rest) \<Rightarrow>
               (''```'' @ take (length post - length rest) post) # fencedMatches rest))"
  by pat_completeness auto
termination
proof (relation "measure length", goal_cases)
  case 1
  show ?case by simp
next
  case (2 s x2 pre post x2a body rest)
  from 2 have a: "split_fence s = Some (pre, post)"
    and b: "split_fence (dropWhile is_js_space (skip_json_word post)) = Some (body, rest)"
    by simp_all
  have "length rest < length (dropWhile is_js_space (skip_json_word post))"
    by (rule split_fence_length [OF b])
  also have "\<dots> \<le> length (skip_json_word post)"
    by (rule length_dropWhile_le)
  also have "\<dots> \<le> length post"
    by (rule skip_json_word_length)
  also have "\<dots> < length s"
    by (rule split_fence_length [OF a])
  finally show ?case by simp
qed

declare fencedMatches.simps [simp del]

text \<open>\<^verbatim>\<open>match.replace(/```(?:json)?/i, '')\<close> and \<^verbatim>\<open>.replace(/```$/, '')\<close>.\<close>

definition replace_first_fence :: "string \<Rightarrow> string" where
  "replace_first_fence m =
     (case split_fence m of None \<Rightarrow> m | Some (pre, post) \<Rightarrow> pre @ skip_json_word post)"

definition replace_end_fence :: "string \<Rightarrow> string" where
  "replace_end_fence m = (if endsWith m ''```'' then take (length m - 3) m else m)"

subsection \<open>collectJsonCandidates and parseAgentAction\<close>

definition collectJsonCandidates :: "string \<Rightarrow> string list" where
  "collectJsonCandidates rawText =
     (let text = js_trim rawText in
      if text = [] then []
      else
        (if startsWith text ''{'' \<and> endsWith text ''}'' then [text] else [])
        @ filter (\<lambda>inner. inner \<noteq> [])
            (map (\<lambda>m. js_trim (replace_end_fence (replace_first_fence m))) (fencedMatches text))
        @ (case extractFirstJsonObject text of
             None \<Rightarrow> []
           | Some firstObject \<Rightarrow> if firstObject \<noteq> [] then [firstObject] else []))"

text \<open>The loop over the candidates; a \<^verbatim>\<open>JSON.parse\<close> exception moves on to the next one.\<close>

fun firstAction :: "string list \<Rightarrow> action option" where
  "firstAction [] = None"
| "firstAction (candidate # rest) =
     (case JSON_parse candidate of
        None \<Rightarrow> firstAction rest
      | Some parsed \<Rightarrow>
          (case normalizeAction parsed of
             Some normalized \<Rightarrow> Some normalized
           | None \<Rightarrow> firstAction rest))"

definition parseAgentAction :: "string \<Rightarrow> action option" where
  "parseAgentAction rawText = firstAction (collectJsonCandidates rawText)"

subsection \<open>formatToolObservation\<close>

text \<open>
  \<open>result\<close> is what a tool returned: \<open>None\<close> for \<^verbatim>\<open>undefined\<close>. Every read of a field is
  guarded by \<^verbatim>\<open>result &&\<close> in the source.
\<close>

definition formatToolObservation :: "string \<Rightarrow> json option \<Rightarrow> string" where
  "formatToolObservation toolName result =
     (let field = (\<lambda>k. case result of
                         None \<Rightarrow> None
                       | Some r \<Rightarrow> if js_truthy r then js_prop r k else None);
          payload =
            [(''tool'', JStr toolName),
             (''ok'', JBool (case result of
                               None \<Rightarrow> False
                             | Some r \<Rightarrow> js_truthy r \<and> js_prop r ''ok'' \<noteq> Some (JBool False))),
             (''output'', JStr (string_or_empty (field ''output''))),
             (''error'', (case field ''error'' of
                            None \<Rightarrow> JNull
                          | Some e \<Rightarrow> if js_truthy e then JStr (js_String e) else JNull))]
            @ (case field ''metadata'' of
                 None \<Rightarrow> []
               | Some m \<Rightarrow> if js_truthy m \<and> js_typeof m = ''object'' then [(''metadata'', m)] else [])
      in ''TOOL_RESULT'' @ [CHR 0x0A] @ JSON_stringify (JObj payload))"

section \<open>Transcript builder (src/agent/historyAdapter.js)\<close>

datatype role = User | Assistant

type_synonym message = "role \<times> string"

definition extractRequestText :: "json \<Rightarrow> string" where
  "extractRequestText turn =
     (if \<not> js_truthy turn \<or> js_typeof turn \<noteq> ''object'' then []
      else (case js_prop turn ''prompt'' of Some (JStr s) \<Rightarrow> js_trim s | _ \<Rightarrow> []))"

definition extractResponsePartText :: "json \<Rightarrow> string" where
  "extractResponsePartText part =
     (if \<not> js_truthy part \<or> js_typeof part \<noteq> ''object'' then []
      else
        (case js_prop part ''value'' of
           Some (JStr s) \<Rightarrow> s
         | other \<Rightarrow>
             (case (case other of
                      None \<Rightarrow> None
                    | Some v \<Rightarrow>
                        if js_truthy v \<and> js_typeof v = ''object'' then js_prop v ''value'' else None) of
                Some (JStr s) \<Rightarrow> s
              | _ \<Rightarrow> string_or_empty (js_prop part ''text''))))"

definition extractResponseText :: "json \<Rightarrow> string" where
  "extractResponseText turn =
     (if \<not> js_truthy turn \<or> js_typeof turn \<noteq> ''object'' then []
      else
        (case js_prop turn ''response'' of
           Some (JArr parts) \<Rightarrow>
             js_trim (js_join [CHR 0x0A]
               (filter (\<lambda>t. t \<noteq> []) (map extractResponsePartText parts)))
         | _ \<Rightarrow> []))"

text \<open>The loop over the turns, with the array \<open>messages\<close> it pushes to.\<close>

fun pushTurns :: "json list \<Rightarrow> message list \<Rightarrow> message list" where
  "pushTurns [] messages = messages"
| "pushTurns (turn # rest) messages =
     (let requestText = extractRequestText turn in
      if requestText \<noteq> [] then pushTurns rest (messages @ [(User, requestText)])
      else
        let responseText = extractResponseText turn in
        if responseText \<noteq> [] then pushTurns rest (messages @ [(Assistant, responseText)])
        else pushTurns rest messages)"

definition toModelMessages :: "json \<Rightarrow> message list" where
  "toModelMessages history = (case history of JArr turns \<Rightarrow> pushTurns turns [] | _ \<Rightarrow> [])"

section \<open>Tool dispatch (src/tools/toolRegistry.js)\<close>

text \<open>
  A thrown value is an \<^verbatim>\<open>Error\<close> object (its name and message) or any other value.
  A tool runs on its input in a world \<open>'w\<close> (file system, terminal, network), and returns
  a value or throws. The registry is the \<^verbatim>\<open>Map\<close> from names to tools, in insertion order.
\<close>

datatype thrown = ErrorObject string string | ThrownValue "json option"

type_synonym 'w tool = "json \<Rightarrow> 'w \<Rightarrow> (thrown + json option) \<times> 'w"

type_synonym 'w registry = "(string \<times> 'w tool) list"

definition register :: "string \<Rightarrow> 'w tool \<Rightarrow> 'w registry \<Rightarrow> 'w registry" where
  "register name tool tools = AList.update name tool tools"

definition getToolNames :: "'w registry \<Rightarrow> string list" where
  "getToolNames tools = map fst tools"

text \<open>\<^verbatim>\<open>error && error.message ? error.message : String(error)\<close>.\<close>

definition catch_message :: "thrown \<Rightarrow> json" where
  "catch_message error =
     (case error of
        ErrorObject name message \<Rightarrow>
          if message \<noteq> [] then JStr message
          else JStr (if name = [] then message else name)
      | ThrownValue None \<Rightarrow> JStr ''undefined''
      | ThrownValue (Some v) \<Rightarrow>
          (case (if js_truthy v then js_prop v ''message'' else None) of
             None \<Rightarrow> JStr (js_String v)
           | Some m \<Rightarrow> if js_truthy m then m else JStr (js_String v)))"

definition failure_result :: "json \<Rightarrow> json" where
  "failure_result err = JObj [(''ok'', JBool False), (''output'', JStr []), (''error'', err)]"

definition execute :: "'w registry \<Rightarrow> string \<Rightarrow> json \<Rightarrow> 'w \<Rightarrow> (thrown + json option) \<times> 'w" where
  \<open>execute tools toolName input w =
     (case map_of tools toolName of
        None \<Rightarrow>
          (Inr (Some (failure_result (JStr
             (''Unknown tool "'' @ toolName @ ''". Available: '' @ js_join '', '' (getToolNames tools))))), w)
      | Some tool \<Rightarrow>
          (case tool (js_or (Some input) (JObj [])) w of
             (Inl error, w') \<Rightarrow> (Inr (Some (failure_result (catch_message error))), w')
           | (Inr result, w') \<Rightarrow> (Inr result, w')))\<close>

section \<open>Agent loop (src/agent/agentModeRunner.js)\<close>

subsection \<open>looksLikeSearchCapabilityRefusal\<close>

text \<open>
  The two regular expressions are tests for the existence of a match. \<open>word_boundary\<close> is
  the assertion \<^verbatim>\<open>\b\<close> at position \<open>i\<close>; \<open>has_word\<close> is a match of \<^verbatim>\<open>\bw\b\<close> for a
  literal \<open>w\<close>. In \<^verbatim>\<open>required.*api proposal\<close> the dot matches everything but a line
  terminator.
\<close>

definition is_word_char :: "char \<Rightarrow> bool" where
  "is_word_char c = (let n = (of_char c :: nat) in
     (48 \<le> n \<and> n \<le> 57) \<or> (65 \<le> n \<and> n \<le> 90) \<or> (97 \<le> n \<and> n \<le> 122) \<or> n = 95)"

definition word_boundary :: "string \<Rightarrow> nat \<Rightarrow> bool" where
  "word_boundary s i =
     ((0 < i \<and> i \<le> length s \<and> is_word_char (s ! (i - 1))) \<noteq> (i < length s \<and> is_word_char (s ! i)))"

definition has_word :: "string \<Rightarrow> string \<Rightarrow> bool" where
  "has_word s w =
     list_ex (\<lambda>i. word_boundary s i \<and> startsWith (drop i s) w \<and> word_boundary s (i + length w))
       [0..<Suc (length s)]"

definition is_line_terminator :: "char \<Rightarrow> bool" where
  "is_line_terminator c = (c = CHR 0x0A \<or> c = CHR 0x0D)"

definition has_required_api_proposal :: "string \<Rightarrow> bool" where
  "has_required_api_proposal s =
     list_ex (\<lambda>i. word_boundary s i \<and> startsWith (drop i s) ''required'' \<and>
        list_ex (\<lambda>j. list_all (\<lambda>c. \<not> is_line_terminator c) (take (j - (i + 8)) (drop (i + 8) s))
                   \<and> startsWith (drop j s) ''api proposal'' \<and> word_boundary s (j + 12))
          [i + 8..<Suc (length s)])
       [0..<Suc (length s)]"

definition looksLikeSearchCapabilityRefusal :: "string \<Rightarrow> bool" where
  "looksLikeSearchCapabilityRefusal content =
     (let s = js_toLowerCase content;
          mentionsSearch = (has_word s ''search'' \<or> has_word s ''workspace'');
          refusalSignal = (has_word s ''unavailable'' \<or> has_word s ''not enabled''
             \<or> has_word s ''cannot'' \<or> has_word s ''can't'' \<or> has_required_api_proposal s
             \<or> has_word s ''permission'' \<or> has_word s ''permissions'')
      in mentionsSearch \<and> refusalSignal)"

subsection \<open>Loop state\<close>

text \<open>
  The model client is a function of the transcript and the world; it returns the text of
  the completion or throws. \<open>stream\<close> is what has been written to the response stream;
  \<open>calls\<close> records each call of \<^verbatim>\<open>modelClient.complete\<close> and each run of a tool.
\<close>

type_synonym 'w modelClient = "message list \<Rightarrow> 'w \<Rightarrow> (thrown + string) \<times> 'w"

datatype streamEvent = Progress string | Warning string | Markdown string

datatype call = ModelCall | ToolCall string json

datatype chatResult = EmptyResult | ErrorDetails string

record 'w loopState =
  modelMessages :: "message list"
  previousToolSignature :: string
  repeatedToolCallCount :: nat
  parseFailureCount :: nat
  capabilityRefusalRetryCount :: nat
  stream :: "streamEvent list"
  calls :: "call list"
  world :: 'w

datatype 'w control = Continue "'w loopState" | Return chatResult "'w loopState" | Throw thrown "'w loopState"

definition invalidFormatMessage :: string where
  \<open>invalidFormatMessage = ''Invalid response format. Reply with exactly one JSON object using either {"type":"tool","tool":"...","input":{...}} or {"type":"final","content":"..."}''\<close>

definition refusalWarning :: string where
  "refusalWarning = ''Search capability is available in this participant. Retrying with tool guidance.''"

definition refusalMessage :: string where
  "refusalMessage = ''Workspace search is available through search_text. Do not refuse for missing search capability. Use tools and continue.''"

definition repeatedCallError :: string where
  "repeatedCallError = ''Identical tool call repeated too many times. Use different input/tool or return a final response.''"

definition budgetMessage :: string where
  \<open>budgetMessage = ''Iteration budget reached. Return a concise final response as JSON: {"type":"final","content":"..."}''\<close>

definition toolSignature :: "string \<Rightarrow> json \<Rightarrow> string" where
  "toolSignature tool input = tool @ '':'' @ JSON_stringify (js_or (Some input) (JObj []))"

subsection \<open>One iteration of the loop\<close>

definition iterationBody :: "'w modelClient \<Rightarrow> 'w registry \<Rightarrow> 'w loopState \<Rightarrow> 'w control" where
  "iterationBody complete tools st =
     (case complete (modelMessages st) (world st) of
        (Inl error, w1) \<Rightarrow> Throw error (st\<lparr>calls := calls st @ [ModelCall], world := w1\<rparr>)
      | (Inr rawResponse, w1) \<Rightarrow>
          (let st1 = st\<lparr>calls := calls st @ [ModelCall], world := w1,
                        modelMessages := modelMessages st @ [(Assistant, rawResponse)]\<rparr>
           in
             case parseAgentAction rawResponse of
               None \<Rightarrow>
                 (let st2 = st1\<lparr>parseFailureCount := parseFailureCount st1 + 1\<rparr> in
                  if parseFailureCount st2 \<ge> 2 then
                    Return EmptyResult (st2\<lparr>stream := stream st2 @
                      [Warning ''Model returned non-JSON output; returning raw response.'',
                       Markdown rawResponse]\<rparr>)
                  else
                    Continue (st2\<lparr>modelMessages := modelMessages st2 @ [(User, invalidFormatMessage)]\<rparr>))
             | Some (FinalAction content) \<Rightarrow>
                 (let st2 = st1\<lparr>parseFailureCount := 0\<rparr> in
                  if looksLikeSearchCapabilityRefusal content \<and> capabilityRefusalRetryCount st2 < 1 then
                    Continue (st2\<lparr>capabilityRefusalRetryCount := capabilityRefusalRetryCount st2 + 1,
                                  stream := stream st2 @ [Warning refusalWarning],
                                  modelMessages := modelMessages st2 @ [(User, refusalMessage)]\<rparr>)
                  else
                    Return EmptyResult (st2\<lparr>stream := stream st2 @
                      [Markdown (if content \<noteq> [] then content else ''Done.'')]\<rparr>))
             | Some (ToolAction tool input) \<Rightarrow>
                 (let st2 = st1\<lparr>parseFailureCount := 0\<rparr>;
                      currentToolSignature = toolSignature tool input;
                      st3 = (if currentToolSignature = previousToolSignature st2
                             then st2\<lparr>repeatedToolCallCount := repeatedToolCallCount st2 + 1\<rparr>
                             else st2\<lparr>previousToolSignature := currentToolSignature,
                                      repeatedToolCallCount := 1\<rparr>)
                  in
                    if repeatedToolCallCount st3 > 2 then
                      Continue (st3\<lparr>stream := stream st3 @ [Warning (''Blocked repeated tool call: '' @ tool)],
                                    modelMessages := modelMessages st3 @
                                      [(User, formatToolObservation tool
                                         (Some (failure_result (JStr repeatedCallError))))]\<rparr>)
                    else
                      (let st4 = st3\<lparr>stream := stream st3 @ [Progress (''Running tool: '' @ tool)],
                                     calls := calls st3 @ [ToolCall tool input]\<rparr>
                       in
                         case execute tools tool input (world st4) of
                           (Inl error, w2) \<Rightarrow> Throw error (st4\<lparr>world := w2\<rparr>)
                         | (Inr toolResult, w2) \<Rightarrow>
                             Continue (st4\<lparr>world := w2,
                               modelMessages := modelMessages st4 @
                                 [(User, formatToolObservation tool toolResult)]\<rparr>)))))"

subsection \<open>The loop, the forced completion and the catch\<close>

text \<open>
  The body never reads \<open>iteration\<close>, so the \<^verbatim>\<open>for\<close> loop is a recursion on the number of
  iterations that remain (\<open>maxIterations - iteration + 1\<close>). \<open>Continue\<close> from \<open>agentLoop\<close>
  is the loop running out.
\<close>

fun agentLoop :: "'w modelClient \<Rightarrow> 'w registry \<Rightarrow> nat \<Rightarrow> 'w loopState \<Rightarrow> 'w control" where
  "agentLoop complete tools 0 st = Continue st"
| "agentLoop complete tools (Suc n) st =
     (case iterationBody complete tools st of
        Continue st' \<Rightarrow> agentLoop complete tools n st'
      | Return r st' \<Rightarrow> Return r st'
      | Throw e st' \<Rightarrow> Throw e st')"

definition forcedCompletion :: "'w modelClient \<Rightarrow> nat \<Rightarrow> 'w loopState \<Rightarrow> 'w control" where
  "forcedCompletion complete maxIterations st =
     (let st1 = st\<lparr>stream := stream st @
                   [Warning (''Reached iteration limit ('' @ show_int (int maxIterations)
                      @ ''). Returning best effort response.'')],
                 modelMessages := modelMessages st @ [(User, budgetMessage)]\<rparr>
      in
        case complete (modelMessages st1) (world st1) of
          (Inl error, w1) \<Rightarrow> Throw error (st1\<lparr>calls := calls st1 @ [ModelCall], world := w1\<rparr>)
        | (Inr finalAttempt, w1) \<Rightarrow>
            (let st2 = st1\<lparr>calls := calls st1 @ [ModelCall], world := w1\<rparr> in
             case parseAgentAction finalAttempt of
               Some (FinalAction content) \<Rightarrow>
                 Return EmptyResult (st2\<lparr>stream := stream st2 @ [Markdown content]\<rparr>)
             | _ \<Rightarrow> Return EmptyResult (st2\<lparr>stream := stream st2 @ [Markdown finalAttempt]\<rparr>)))"

definition runFrom :: "'w modelClient \<Rightarrow> 'w registry \<Rightarrow> nat \<Rightarrow> nat \<Rightarrow> 'w loopState \<Rightarrow> 'w control" where
  "runFrom complete tools maxIterations remaining st =
     (case agentLoop complete tools remaining st of
        Continue st' \<Rightarrow> forcedCompletion complete maxIterations st'
      | Return r st' \<Rightarrow> Return r st'
      | Throw e st' \<Rightarrow> Throw e st')"

definition catchFailure :: "'w control \<Rightarrow> chatResult \<times> 'w loopState" where
  "catchFailure c =
     (case c of
        Continue st \<Rightarrow> (EmptyResult, st)
      | Return r st \<Rightarrow> (r, st)
      | Throw error st \<Rightarrow>
          (let message = ''Agent execution failed: '' @ js_String (catch_message error) in
           (ErrorDetails message, st\<lparr>stream := stream st @ [Warning message]\<rparr>)))"

definition initialState :: "string \<Rightarrow> json \<Rightarrow> string \<Rightarrow> 'w \<Rightarrow> 'w loopState" where
  "initialState systemPrompt history taskPrompt w =
     \<lparr>modelMessages = [(User, systemPrompt)] @ toModelMessages history @ [(User, taskPrompt)],
      previousToolSignature = [],
      repeatedToolCallCount = 0,
      parseFailureCount = 0,
      capabilityRefusalRetryCount = 0,
      stream = [],
      calls = [],
      world = w\<rparr>"

text \<open>
  \<open>handleRequest\<close> from the construction of \<open>modelMessages\<close> on: the model-driven path,
  taken by a request that the direct paths (\<^verbatim>\<open>/compact\<close>, a command tool, an autonomous
  tool) have not answered. \<open>systemPrompt\<close> and \<open>taskPrompt\<close> are the texts built from the
  profile and the request.
\<close>

definition handleRequest ::
  "'w modelClient \<Rightarrow> 'w registry \<Rightarrow> nat \<Rightarrow> string \<Rightarrow> json \<Rightarrow> string \<Rightarrow> 'w \<Rightarrow> chatResult \<times> 'w loopState" where
  "handleRequest complete tools maxIterations systemPrompt history taskPrompt w =
     catchFailure (runFrom complete tools maxIterations maxIterations
       (initialState systemPrompt history taskPrompt w))"

section \<open>The transcript builder in the words of the specification\<close>

text \<open>
  The specification's reading of a turn, kept apart from the code above and compared with
  it below: a prompt string gives one user message; otherwise the non-empty fragments of
  the response, in the shapes plain string, \<^verbatim>\<open>{value: string}\<close>,
  \<^verbatim>\<open>{value: {value: string}}\<close> and \<^verbatim>\<open>{text: string}\<close>, are concatenated into one
  assistant message.
\<close>

definition spec_fragment_text :: "json \<Rightarrow> string" where
  "spec_fragment_text part =
     (case part of
        JStr s \<Rightarrow> s
      | JObj ms \<Rightarrow>
          (case map_of ms ''value'' of
             Some (JStr s) \<Rightarrow> s
           | Some (JObj vs) \<Rightarrow>
               (case map_of vs ''value'' of
                  Some (JStr s) \<Rightarrow> s
                | _ \<Rightarrow> string_or_empty (map_of ms ''text''))
           | _ \<Rightarrow> string_or_empty (map_of ms ''text''))
      | _ \<Rightarrow> [])"

definition spec_turn_messages :: "json \<Rightarrow> message list" where
  "spec_turn_messages turn =
     (case js_prop turn ''prompt'' of
        Some (JStr p) \<Rightarrow> [(User, p)]
      | _ \<Rightarrow>
          (case js_prop turn ''response'' of
             Some (JArr parts) \<Rightarrow>
               (let t = concat (filter (\<lambda>f. f \<noteq> []) (map spec_fragment_text parts)) in
                if t \<noteq> [] then [(Assistant, t)] else [])
           | _ \<Rightarrow> []))"

definition spec_toModelMessages :: "json \<Rightarrow> message list" where
  "spec_toModelMessages history =
     (case history of JArr turns \<Rightarrow> concat (map spec_turn_messages turns) | _ \<Rightarrow> [])"

text \<open>What one pass of the loop in \<open>pushTurns\<close> appends for a turn.\<close>

definition turnMessages :: "json \<Rightarrow> message list" where
  "turnMessages turn =
     (if extractRequestText turn \<noteq> [] then [(User, extractRequestText turn)]
      else if extractResponseText turn \<noteq> [] then [(Assistant, extractResponseText turn)]
      else [])"

section \<open>Values that JavaScript can hold\<close>

text \<open>
  \<open>object_order\<close> holds of a property list that an object can enumerate: the keys are
  distinct, and an array-index key is preceded only by smaller array-index keys.
  \<open>wf_json\<close> asks this of every object inside a value. \<open>parse_fuel\<close> is a number of
  nested calls that suffices for \<open>parse_value\<close> to read the value back.
\<close>

fun ordered_keys :: "string list \<Rightarrow> bool" where
  "ordered_keys [] = True"
| "ordered_keys [k] = True"
| "ordered_keys (k1 # k2 # ks) =
     ((if is_array_index k2 then is_array_index k1 \<and> read_dec k1 < read_dec k2 else True)
      \<and> ordered_keys (k2 # ks))"

definition object_order :: "(string \<times> json) list \<Rightarrow> bool" where
  "object_order ms = (distinct (map fst ms) \<and> ordered_keys (map fst ms))"

fun wf_json :: "json \<Rightarrow> bool"
  and wf_elements :: "json list \<Rightarrow> bool"
  and wf_members :: "(string \<times> json) list \<Rightarrow> bool"
where
  "wf_json JNull = True"
| "wf_json (JBool b) = True"
| "wf_json (JNum n) = True"
| "wf_json (JStr s) = True"
| "wf_json (JArr xs) = wf_elements xs"
| "wf_json (JObj ms) = (object_order ms \<and> wf_members ms)"
| "wf_elements [] = True"
| "wf_elements (x # xs) = (wf_json x \<and> wf_elements xs)"
| "wf_members [] = True"
| "wf_members ((k, v) # ms) = (wf_json v \<and> wf_members ms)"

fun parse_fuel :: "json \<Rightarrow> nat"
  and fuel_elements :: "json list \<Rightarrow> nat"
  and fuel_members :: "(string \<times> json) list \<Rightarrow> nat"
where
  "parse_fuel JNull = 1"
| "parse_fuel (JBool b) = 1"
| "parse_fuel (JNum n) = 1"
| "parse_fuel (JStr s) = 1"
| "parse_fuel (JArr xs) = Suc (fuel_elements xs)"
| "parse_fuel (JObj ms) = Suc (fuel_members ms)"
| "fuel_elements [] = 0"
| "fuel_elements (x # xs) = Suc (max (parse_fuel x) (fuel_elements xs))"
| "fuel_members [] = 0"
| "fuel_members ((k, v) # ms) = Suc (max (parse_fuel v) (fuel_members ms))"

text \<open>Characters at which a serialised value starts, ends, or which the brace scan ignores.\<close>

definition value_start :: "char \<Rightarrow> bool" where
  "value_start c = (c = CHR ''n'' \<or> c = CHR ''t'' \<or> c = CHR ''f'' \<or> c = CHR ''-'' \<or> is_digit c
     \<or> c = dq \<or> c = CHR ''['' \<or> c = CHR ''{'')"

definition follows_value :: "string \<Rightarrow> bool" where
  "follows_value rest = (case rest of [] \<Rightarrow> True | c # cs \<Rightarrow> c = CHR '','' \<or> c = CHR '']'' \<or> c = CHR ''}'')"

definition plain_char :: "char \<Rightarrow> bool" where
  "plain_char c = (c \<noteq> bslash \<and> c \<noteq> dq \<and> c \<noteq> CHR ''{'' \<and> c \<noteq> CHR ''}'')"

section \<open>Reading an observation back\<close>

text \<open>
  The JSON object of an observation block, found by \<open>extractFirstJsonObject\<close> and read
  by \<^verbatim>\<open>JSON.parse\<close>.
\<close>

definition reparseObservation :: "string \<Rightarrow> json option" where
  "reparseObservation observation =
     (case extractFirstJsonObject observation of None \<Rightarrow> None | Some s \<Rightarrow> JSON_parse s)"

section \<open>Observations on a run\<close>

text \<open>
  Counters and abbreviations used to state the properties of the loop: the number of
  calls of the model client, the state after a completion has been appended, the state
  after the repeat counter has been updated, the number of corrective retries announced
  on the stream, and the shape of an answered request.
\<close>

definition modelCallCount :: "call list \<Rightarrow> nat" where
  "modelCallCount cs = length (filter (\<lambda>c. c = ModelCall) cs)"

definition after_completion :: "'w loopState \<Rightarrow> string \<Rightarrow> 'w \<Rightarrow> 'w loopState" where
  "after_completion st rawResponse w1 =
     st\<lparr>calls := calls st @ [ModelCall], world := w1,
        modelMessages := modelMessages st @ [(Assistant, rawResponse)]\<rparr>"

definition after_signature :: "'w loopState \<Rightarrow> string \<Rightarrow> 'w loopState" where
  "after_signature st sig =
     (if sig = previousToolSignature st
      then st\<lparr>parseFailureCount := 0, repeatedToolCallCount := repeatedToolCallCount st + 1\<rparr>
      else st\<lparr>parseFailureCount := 0, previousToolSignature := sig, repeatedToolCallCount := 1\<rparr>)"

definition refusalRetries :: "streamEvent list \<Rightarrow> nat" where
  "refusalRetries evs = length (filter (\<lambda>e. e = Warning refusalWarning) evs)"

fun control_state :: "'w control \<Rightarrow> 'w loopState" where
  "control_state (Continue st) = st"
| "control_state (Return r st) = st"
| "control_state (Throw e st) = st"

definition answered :: "'w control \<Rightarrow> bool" where
  "answered c = (case c of
      Return r st \<Rightarrow> r = EmptyResult \<and> stream st \<noteq> [] \<and> (\<exists>t. last (stream st) = Markdown t)
    | _ \<Rightarrow> True)"

text \<open>The invariant of the loop for the corrective retry on a refused capability.\<close>

definition refusal_invariant :: "'w loopState \<Rightarrow> bool" where
  "refusal_invariant st = (refusalRetries (stream st) = capabilityRefusalRetryCount st
     \<and> capabilityRefusalRetryCount st \<le> 1)"

definition refusal_bounded :: "'w control \<Rightarrow> bool" where
  "refusal_bounded c = (case c of
      Continue st \<Rightarrow> refusal_invariant st
    | Return r st \<Rightarrow> refusalRetries (stream st) \<le> 1
    | Throw e st \<Rightarrow> refusalRetries (stream st) \<le> 1)"

section \<open>Example runs\<close>

text \<open>Model clients and states on which the properties below are instantiated.\<close>

definition proseModel :: "unit modelClient" where
  "proseModel msgs w = (Inr (if length msgs < 2 then ''I will look'' else ''still prose''), w)"

definition toolModel :: "unit modelClient" where
  \<open>toolModel msgs w = (Inr ''{"type":"tool","tool":"t","input":{}}'', w)\<close>

definition refusingModel :: "unit modelClient" where
  \<open>refusingModel msgs w = (Inr ''{"type":"final","content":"search unavailable"}'', w)\<close>

definition emptyState :: "unit loopState" where
  "emptyState = \<lparr>modelMessages = [], previousToolSignature = [], repeatedToolCallCount = 0,
     parseFailureCount = 0, capabilityRefusalRetryCount = 0, stream = [], calls = [], world = ()\<rparr>"

definition repeatState :: "unit loopState" where
  "repeatState = \<lparr>modelMessages = [], previousToolSignature = ''t:{}'', repeatedToolCallCount = 2,
     parseFailureCount = 0, capabilityRefusalRetryCount = 0, stream = [], calls = [ModelCall, ToolCall ''t'' (JObj []), ModelCall, ToolCall ''t'' (JObj [])], world = ()\<rparr>"

definition sampleResult :: json where
  "sampleResult = JObj [(''ok'', JBool False), (''output'', JStr ''a\<newline>b''), (''error'', JStr ''no {file}''),
     (''metadata'', JObj [(''1'', JNum (- 20)), (''path'', JArr [JStr ''x'', JNull])])]"



section \<open>Properties\<close>

subsection \<open>Action protocol\<close>

lemma trim_tool_literal: "js_toLowerCase (js_trim ''tool'') = ''tool''"
  by code_simp

text \<open>
  Claim C7. \<open>parseAgentAction\<close> maps the exact text \<^verbatim>\<open>{"type":"final","content":"done"}\<close>
  to the final action with content \<^verbatim>\<open>done\<close>; a \<^verbatim>\<open>```json\<close> fenced block holding the
  tool action \<^verbatim>\<open>search_text\<close> with input \<^verbatim>\<open>{"query":"x"}\<close> to that tool action; and the
  text \<^verbatim>\<open>noise {"type":"tool","tool":"t"} trailing\<close> to the tool action \<^verbatim>\<open>t\<close> with an
  empty input object, where the balanced-brace scan yields the only candidate.
\<close>

theorem parseAgentAction_examples:
  \<open>parseAgentAction ''{"type":"final","content":"done"}'' = Some (FinalAction ''done'')
   \<and> parseAgentAction ''```json\<newline>{"type":"tool","tool":"search_text","input":{"query":"x"}}\<newline>```''
       = Some (ToolAction ''search_text'' (JObj [(''query'', JStr ''x'')]))
   \<and> parseAgentAction ''noise {"type":"tool","tool":"t"} trailing'' = Some (ToolAction ''t'' (JObj []))
   \<and> extractFirstJsonObject ''noise {"type":"tool","tool":"t"} trailing'' = Some ''{"type":"tool","tool":"t"}''
   \<and> collectJsonCandidates ''noise {"type":"tool","tool":"t"} trailing'' = [''{"type":"tool","tool":"t"}'']\<close>
  by code_simp

text \<open>
  Claim C10. For a parsed object whose \<^verbatim>\<open>type\<close> is \<^verbatim>\<open>tool\<close> and whose \<^verbatim>\<open>tool\<close> is a
  non-empty string \<open>t\<close>, \<open>normalizeAction\<close> returns no action when \<open>t\<close> is blank and
  otherwise the tool action named by the trimmed \<open>t\<close>, whose input is the \<^verbatim>\<open>input\<close>
  value itself when that is an array or an object, and the empty object when it is missing,
  \<^verbatim>\<open>null\<close> or a primitive.
\<close>

theorem normalizeAction_tool_input:
  assumes "map_of ms ''type'' = Some (JStr ''tool'')"
    and "map_of ms ''tool'' = Some (JStr t)"
    and "t \<noteq> []"
  shows "normalizeAction (JObj ms) =
     (if js_trim t = [] then None
      else Some (ToolAction (js_trim t)
             (case map_of ms ''input'' of
                None \<Rightarrow> JObj []
              | Some (JArr xs) \<Rightarrow> JArr xs
              | Some (JObj kvs) \<Rightarrow> JObj kvs
              | Some _ \<Rightarrow> JObj [])))"
  using assms(1,2)
  by (auto simp: normalizeAction_def js_or_def trim_tool_literal Let_def split: option.splits json.splits)

theorem normalizeAction_tool_input_witness:
  \<open>normalizeAction (JObj [(''type'', JStr ''tool''), (''tool'', JStr ''t''), (''input'', JArr [JNum 1, JNum 2])])
     = Some (ToolAction ''t'' (JArr [JNum 1, JNum 2]))
   \<and> parseAgentAction ''{"type":"tool","tool":"t","input":[1,2]}'' = Some (ToolAction ''t'' (JArr [JNum 1, JNum 2]))\<close>
proof -
  have t: "js_trim ''t'' = ''t''" by code_simp
  have p: \<open>parseAgentAction ''{"type":"tool","tool":"t","input":[1,2]}'' = Some (ToolAction ''t'' (JArr [JNum 1, JNum 2]))\<close>
    by code_simp
  show ?thesis
    using normalizeAction_tool_input [of "[(''type'', JStr ''tool''), (''tool'', JStr ''t''), (''input'', JArr [JNum 1, JNum 2])]" "''t''"] t p
    by simp
qed





subsection \<open>Transcript builder\<close>

lemma pushTurns_append:
  "pushTurns turns messages = messages @ concat (map turnMessages turns)"
  by (induction turns arbitrary: messages) (simp_all add: turnMessages_def Let_def)

text \<open>
  Claim C5 as stated fails on the code. A plain string fragment is not read (the code
  reads fragments that are objects only), the fragments are joined with a newline and the
  result is trimmed rather than concatenated, and a prompt that is blank after trimming
  gives no user message.
\<close>

theorem toModelMessages_counterexample:
  "toModelMessages (JArr [JObj [(''response'', JArr [JStr ''hello''])]]) = []
   \<and> spec_toModelMessages (JArr [JObj [(''response'', JArr [JStr ''hello''])]]) = [(Assistant, ''hello'')]
   \<and> toModelMessages (JArr [JObj [(''response'', JArr [JObj [(''value'', JStr ''a'')], JObj [(''text'', JStr ''b'')]])]])
       = [(Assistant, ''a\<newline>b'')]
   \<and> spec_toModelMessages (JArr [JObj [(''response'', JArr [JObj [(''value'', JStr ''a'')], JObj [(''text'', JStr ''b'')]])]])
       = [(Assistant, ''ab'')]
   \<and> toModelMessages (JArr [JObj [(''prompt'', JStr '' '')]]) = []
   \<and> spec_toModelMessages (JArr [JObj [(''prompt'', JStr '' '')]]) = [(User, '' '')]"
  by code_simp

text \<open>
  Claim C5, amended. For every history list the builder emits, turn by turn and in the
  order of the turns: one user message with the trimmed prompt when the prompt is a string
  that is not blank; otherwise one assistant message with the non-empty fragment texts
  joined by newlines and trimmed, when that text is not empty; otherwise nothing. The
  fragment shapes read are \<^verbatim>\<open>{value: string}\<close>, \<^verbatim>\<open>{value: {value: string}}\<close> and
  \<^verbatim>\<open>{text: string}\<close>; a plain string fragment contributes nothing.
\<close>

theorem toModelMessages_per_turn:
  "toModelMessages (JArr turns) =
     concat (map (\<lambda>turn.
        if extractRequestText turn \<noteq> [] then [(User, extractRequestText turn)]
        else if extractResponseText turn \<noteq> [] then [(Assistant, extractResponseText turn)]
        else []) turns)
   \<and> extractRequestText (JObj ms) = (case map_of ms ''prompt'' of Some (JStr p) \<Rightarrow> js_trim p | _ \<Rightarrow> [])
   \<and> extractResponseText (JObj ms) =
       (case map_of ms ''response'' of
          Some (JArr parts) \<Rightarrow>
            js_trim (js_join [CHR 0x0A] (filter (\<lambda>t. t \<noteq> []) (map extractResponsePartText parts)))
        | _ \<Rightarrow> [])
   \<and> extractResponsePartText (JStr s) = []
   \<and> extractResponsePartText (JObj [(''value'', JStr s)]) = s
   \<and> extractResponsePartText (JObj [(''value'', JObj [(''value'', JStr s)])]) = s
   \<and> extractResponsePartText (JObj [(''text'', JStr s)]) = s"
proof -
  have "toModelMessages (JArr turns) = concat (map turnMessages turns)"
    by (simp add: toModelMessages_def pushTurns_append)
  moreover have "turnMessages = (\<lambda>turn.
        if extractRequestText turn \<noteq> [] then [(User, extractRequestText turn)]
        else if extractResponseText turn \<noteq> [] then [(Assistant, extractResponseText turn)]
        else [])"
    by (rule ext) (simp add: turnMessages_def)
  ultimately show ?thesis
    by (simp add: extractRequestText_def extractResponseText_def extractResponsePartText_def
        string_or_empty_def)
qed

theorem toModelMessages_per_turn_witness:
  "toModelMessages (JArr
      [JObj [(''prompt'', JStr '' hi '')],
       JObj [(''response'', JArr [JStr ''plain'', JObj [(''value'', JStr ''a'')],
          JObj [(''value'', JObj [(''value'', JStr ''b'')])], JObj [(''text'', JStr ''c '')]])],
       JObj [(''prompt'', JStr '' '')]])
     = [(User, ''hi''), (Assistant, ''a\<newline>b\<newline>c'')]"
proof -
  have e1: "extractRequestText (JObj [(''prompt'', JStr '' hi '')]) = ''hi''"
    by code_simp
  have e2: "extractRequestText (JObj [(''response'', JArr [JStr ''plain'', JObj [(''value'', JStr ''a'')],
          JObj [(''value'', JObj [(''value'', JStr ''b'')])], JObj [(''text'', JStr ''c '')]])]) = []"
    by code_simp
  have r2: "extractResponseText (JObj [(''response'', JArr [JStr ''plain'', JObj [(''value'', JStr ''a'')],
          JObj [(''value'', JObj [(''value'', JStr ''b'')])], JObj [(''text'', JStr ''c '')]])]) = ''a\<newline>b\<newline>c''"
    by code_simp
  have e3: "extractRequestText (JObj [(''prompt'', JStr '' '')]) = []"
    by code_simp
  have r3: "extractResponseText (JObj [(''prompt'', JStr '' '')]) = []"
    by code_simp
  show ?thesis
    using toModelMessages_per_turn [of "[JObj [(''prompt'', JStr '' hi '')],
       JObj [(''response'', JArr [JStr ''plain'', JObj [(''value'', JStr ''a'')],
          JObj [(''value'', JObj [(''value'', JStr ''b'')])], JObj [(''text'', JStr ''c '')]])],
       JObj [(''prompt'', JStr '' '')]]"] e1 e2 r2 e3 r3
    by simp
qed

subsection \<open>Agent loop: the branches of one iteration\<close>

lemma iterationBody_throw:
  "complete (modelMessages st) (world st) = (Inl e, w1) \<Longrightarrow>
   iterationBody complete tools st = Throw e (st\<lparr>calls := calls st @ [ModelCall], world := w1\<rparr>)"
  by (simp add: iterationBody_def)

lemma iterationBody_unparsable:
  "complete (modelMessages st) (world st) = (Inr raw, w1) \<Longrightarrow> parseAgentAction raw = None \<Longrightarrow>
   iterationBody complete tools st =
     (if parseFailureCount st + 1 \<ge> 2 then
        Return EmptyResult ((after_completion st raw w1)\<lparr>parseFailureCount := parseFailureCount st + 1,
          stream := stream st @ [Warning ''Model returned non-JSON output; returning raw response.'', Markdown raw]\<rparr>)
      else
        Continue ((after_completion st raw w1)\<lparr>parseFailureCount := parseFailureCount st + 1,
          modelMessages := modelMessages st @ [(Assistant, raw), (User, invalidFormatMessage)]\<rparr>))"
  by (simp add: iterationBody_def after_completion_def Let_def)

lemma iterationBody_final:
  "complete (modelMessages st) (world st) = (Inr raw, w1) \<Longrightarrow>
   parseAgentAction raw = Some (FinalAction content) \<Longrightarrow>
   iterationBody complete tools st =
     (if looksLikeSearchCapabilityRefusal content \<and> capabilityRefusalRetryCount st < 1 then
        Continue ((after_completion st raw w1)\<lparr>parseFailureCount := 0,
          capabilityRefusalRetryCount := capabilityRefusalRetryCount st + 1,
          stream := stream st @ [Warning refusalWarning],
          modelMessages := modelMessages st @ [(Assistant, raw), (User, refusalMessage)]\<rparr>)
      else
        Return EmptyResult ((after_completion st raw w1)\<lparr>parseFailureCount := 0,
          stream := stream st @ [Markdown (if content \<noteq> [] then content else ''Done.'')]\<rparr>))"
  by (simp add: iterationBody_def after_completion_def Let_def)

lemma iterationBody_tool:
  "complete (modelMessages st) (world st) = (Inr raw, w1) \<Longrightarrow>
   parseAgentAction raw = Some (ToolAction tool input) \<Longrightarrow>
   iterationBody complete tools st =
     (let st3 = after_signature (after_completion st raw w1) (toolSignature tool input) in
      if repeatedToolCallCount st3 > 2 then
        Continue (st3\<lparr>stream := stream st @ [Warning (''Blocked repeated tool call: '' @ tool)],
          modelMessages := modelMessages st @ [(Assistant, raw),
            (User, formatToolObservation tool (Some (failure_result (JStr repeatedCallError))))]\<rparr>)
      else
        (case execute tools tool input w1 of
           (Inl e, w2) \<Rightarrow>
             Throw e (st3\<lparr>stream := stream st @ [Progress (''Running tool: '' @ tool)],
               calls := calls st @ [ModelCall, ToolCall tool input], world := w2\<rparr>)
         | (Inr toolResult, w2) \<Rightarrow>
             Continue (st3\<lparr>stream := stream st @ [Progress (''Running tool: '' @ tool)],
               calls := calls st @ [ModelCall, ToolCall tool input], world := w2,
               modelMessages := modelMessages st @ [(Assistant, raw),
                 (User, formatToolObservation tool toolResult)]\<rparr>)))"
  by (simp add: iterationBody_def after_completion_def after_signature_def Let_def
      split: prod.splits sum.splits)

lemma iterationBody_calls:
  "modelCallCount (calls (control_state (iterationBody complete tools st))) = modelCallCount (calls st) + 1"
proof (cases "complete (modelMessages st) (world st)")
  case (Pair res w1)
  show ?thesis
  proof (cases res)
    case (Inl e)
    with Pair show ?thesis
      by (simp add: iterationBody_throw modelCallCount_def)
  next
    case (Inr raw)
    note c = Pair [unfolded Inr]
    show ?thesis
    proof (cases "parseAgentAction raw")
      case None
      show ?thesis
        by (simp add: iterationBody_unparsable [where complete = complete and st = st, OF c None] modelCallCount_def after_completion_def)
    next
      case (Some a)
      show ?thesis
      proof (cases a)
        case (FinalAction content)
        show ?thesis
          by (simp add: iterationBody_final [where complete = complete and st = st, OF c Some [unfolded FinalAction]] modelCallCount_def
              after_completion_def)
      next
        case (ToolAction tool input)
        show ?thesis
          by (simp add: iterationBody_tool [where complete = complete and st = st, OF c Some [unfolded ToolAction]] modelCallCount_def
              after_completion_def after_signature_def Let_def split: prod.splits sum.splits)
      qed
    qed
  qed
qed

lemma iterationBody_answered: "answered (iterationBody complete tools st)"
proof (cases "complete (modelMessages st) (world st)")
  case (Pair res w1)
  show ?thesis
  proof (cases res)
    case (Inl e)
    with Pair show ?thesis
      by (simp add: iterationBody_throw answered_def)
  next
    case (Inr raw)
    note c = Pair [unfolded Inr]
    show ?thesis
    proof (cases "parseAgentAction raw")
      case None
      show ?thesis
        by (simp add: iterationBody_unparsable [where complete = complete and st = st, OF c None] answered_def)
    next
      case (Some a)
      show ?thesis
      proof (cases a)
        case (FinalAction content)
        show ?thesis
          by (simp add: iterationBody_final [where complete = complete and st = st, OF c Some [unfolded FinalAction]] answered_def)
      next
        case (ToolAction tool input)
        show ?thesis
          by (simp add: iterationBody_tool [where complete = complete and st = st, OF c Some [unfolded ToolAction]] answered_def
              Let_def split: prod.splits sum.splits)
      qed
    qed
  qed
qed

lemma agentLoop_calls:
  "modelCallCount (calls (control_state (agentLoop complete tools n st))) \<le> modelCallCount (calls st) + n
   \<and> answered (agentLoop complete tools n st)"
proof (induction n arbitrary: st)
  case 0
  show ?case by (simp add: answered_def)
next
  case (Suc n)
  have one: "modelCallCount (calls (control_state (iterationBody complete tools st))) = modelCallCount (calls st) + 1"
    by (rule iterationBody_calls)
  have ans: "answered (iterationBody complete tools st)"
    by (rule iterationBody_answered)
  show ?case
  proof (cases "iterationBody complete tools st")
    case (Continue st')
    with one have "modelCallCount (calls st') = modelCallCount (calls st) + 1" by simp
    with Suc.IH [of st'] Continue show ?thesis by simp
  next
    case (Return r st')
    with one ans show ?thesis by simp
  next
    case (Throw e st')
    with one show ?thesis by (simp add: answered_def)
  qed
qed

lemma forcedCompletion_calls:
  "modelCallCount (calls (control_state (forcedCompletion complete maxIterations st))) = modelCallCount (calls st) + 1
   \<and> answered (forcedCompletion complete maxIterations st)
   \<and> (\<forall>st'. forcedCompletion complete maxIterations st \<noteq> Continue st')"
  by (simp add: forcedCompletion_def Let_def modelCallCount_def answered_def
      split: prod.splits sum.splits option.splits action.splits)

lemma runFrom_calls:
  "modelCallCount (calls (control_state (runFrom complete tools maxIterations n st))) \<le> modelCallCount (calls st) + n + 1
   \<and> answered (runFrom complete tools maxIterations n st)
   \<and> (\<forall>st'. runFrom complete tools maxIterations n st \<noteq> Continue st')"
proof (cases "agentLoop complete tools n st")
  case (Continue st')
  with agentLoop_calls [of complete tools n st] forcedCompletion_calls [of complete maxIterations st']
  show ?thesis by (simp add: runFrom_def)
next
  case (Return r st')
  with agentLoop_calls [of complete tools n st] show ?thesis by (simp add: runFrom_def)
next
  case (Throw e st')
  with agentLoop_calls [of complete tools n st] show ?thesis by (simp add: runFrom_def answered_def)
qed

text \<open>
  Claim C2. For every model client, registry, request texts and history, \<open>handleRequest\<close>
  calls the model client at most \<open>maxIterations + 1\<close> times and ends in a terminal
  outcome: an answer written to the stream (the final content or the raw text), or a
  structured failure whose message is the last warning.
\<close>

theorem handleRequest_model_calls:
  "(case handleRequest complete tools maxIterations systemPrompt history taskPrompt w of
      (result, st) \<Rightarrow>
        modelCallCount (calls st) \<le> maxIterations + 1
        \<and> stream st \<noteq> []
        \<and> (case result of
             EmptyResult \<Rightarrow> (\<exists>t. last (stream st) = Markdown t)
           | ErrorDetails message \<Rightarrow> last (stream st) = Warning message))"
proof -
  let ?st0 = "initialState systemPrompt history taskPrompt w"
  let ?c = "runFrom complete tools maxIterations maxIterations ?st0"
  have zero: "modelCallCount (calls ?st0) = 0"
    by (simp add: initialState_def modelCallCount_def)
  have r: "modelCallCount (calls (control_state ?c)) \<le> maxIterations + 1"
    "answered ?c" "\<forall>st'. ?c \<noteq> Continue st'"
    using runFrom_calls [of complete tools maxIterations maxIterations ?st0] zero by simp_all
  show ?thesis
  proof (cases ?c)
    case (Continue st')
    with r(3) show ?thesis by simp
  next
    case (Return res st')
    with r(1,2) show ?thesis
      by (auto simp: handleRequest_def catchFailure_def answered_def)
  next
    case (Throw e st')
    with r(1) show ?thesis
      by (simp add: handleRequest_def catchFailure_def Let_def modelCallCount_def)
  qed
qed

subsection \<open>Agent loop: repeated tool calls\<close>

text \<open>
  Claim C3. When the completion parses to a tool action whose signature equals the
  preceding signature and the repeat counter, once incremented, exceeds 2, the iteration
  runs no tool (the only call recorded is the model call): it appends the completion and
  an observation with \<^verbatim>\<open>ok:false\<close> to the transcript, warns on the stream, and the loop
  continues with the next model call.
\<close>

theorem repeated_tool_call_blocked:
  assumes "complete (modelMessages st) (world st) = (Inr raw, w1)"
    and "parseAgentAction raw = Some (ToolAction tool input)"
    and "toolSignature tool input = previousToolSignature st"
    and "repeatedToolCallCount st + 1 > 2"
  shows "iterationBody complete tools st =
     Continue (st\<lparr>calls := calls st @ [ModelCall], world := w1,
        parseFailureCount := 0,
        repeatedToolCallCount := repeatedToolCallCount st + 1,
        stream := stream st @ [Warning (''Blocked repeated tool call: '' @ tool)],
        modelMessages := modelMessages st @ [(Assistant, raw),
          (User, ''TOOL_RESULT'' @ [CHR 0x0A] @ JSON_stringify (JObj
             [(''tool'', JStr tool), (''ok'', JBool False), (''output'', JStr []),
              (''error'', JStr repeatedCallError)]))]\<rparr>)"
proof -
  have obs: "formatToolObservation tool (Some (failure_result (JStr repeatedCallError))) =
      ''TOOL_RESULT'' @ [CHR 0x0A] @ JSON_stringify (JObj
             [(''tool'', JStr tool), (''ok'', JBool False), (''output'', JStr []),
              (''error'', JStr repeatedCallError)])"
    by (simp add: formatToolObservation_def failure_result_def string_or_empty_def
        repeatedCallError_def Let_def)
  show ?thesis
    using assms(3,4)
    by (simp add: iterationBody_tool [where complete = complete and st = st, OF assms(1,2)]
        after_signature_def after_completion_def Let_def obs)
qed

theorem repeated_tool_call_blocked_witness:
  \<open>iterationBody toolModel [(''t'', \<lambda>i w. (Inr None, w))] repeatState =
     Continue (repeatState\<lparr>calls := calls repeatState @ [ModelCall],
        repeatedToolCallCount := 3,
        stream := [Warning ''Blocked repeated tool call: t''],
        modelMessages := [(Assistant, ''{"type":"tool","tool":"t","input":{}}''),
          (User, ''TOOL_RESULT\<newline>{"tool":"t","ok":false,"output":"","error":"Identical tool call repeated too many times. Use different input/tool or return a final response."}'')]\<rparr>)
   \<and> calls (control_state (agentLoop toolModel [(''t'', \<lambda>i w. (Inr None, w))] 3 emptyState))
       = [ModelCall, ToolCall ''t'' (JObj []), ModelCall, ToolCall ''t'' (JObj []), ModelCall]\<close>
proof -
  have p: \<open>parseAgentAction ''{"type":"tool","tool":"t","input":{}}'' = Some (ToolAction ''t'' (JObj []))\<close>
    by code_simp
  have s: "toolSignature ''t'' (JObj []) = ''t:{}''"
    by code_simp
  have j: \<open>JSON_stringify (JObj [(''tool'', JStr ''t''), (''ok'', JBool False), (''output'', JStr []),
              (''error'', JStr repeatedCallError)]) = ''{"tool":"t","ok":false,"output":"","error":"Identical tool call repeated too many times. Use different input/tool or return a final response."}''\<close>
    by code_simp
  have r: "calls (control_state (agentLoop toolModel [(''t'', \<lambda>i w. (Inr None, w))] 3 emptyState))
       = [ModelCall, ToolCall ''t'' (JObj []), ModelCall, ToolCall ''t'' (JObj []), ModelCall]"
    by code_simp
  show ?thesis
    using repeated_tool_call_blocked [of toolModel repeatState \<open>''{"type":"tool","tool":"t","input":{}}''\<close> "()" "''t''" "JObj []" "[(''t'', \<lambda>i w. (Inr None, w))]"] p s j r
    by (simp add: toolModel_def repeatState_def)
qed

subsection \<open>Agent loop: unparsable completions\<close>

lemma forcedCompletion_unparsable:
  "complete (modelMessages st @ [(User, budgetMessage)]) (world st) = (Inr raw, w1) \<Longrightarrow>
   parseAgentAction raw = None \<Longrightarrow>
   \<exists>st'. forcedCompletion complete maxIterations st = Return EmptyResult st'
     \<and> stream st' \<noteq> [] \<and> last (stream st') = Markdown raw \<and> calls st' = calls st @ [ModelCall]"
  by (simp add: forcedCompletion_def Let_def)

text \<open>
  Claim C4. From a state with no pending parse failure and at least one iteration left, two
  consecutive unparsable completions end the request: the second raw text is the last thing
  written to the stream and no further model call is made (in the loop when an iteration
  remains for the second completion, and in the forced completion otherwise). An iteration
  that parses its completion and continues leaves \<open>parseFailureCount\<close> at 0, and a single
  failure from count 0 only adds the corrective message.
\<close>

theorem two_unparsable_completions_stop:
  "(parseFailureCount st = 0
      \<and> complete (modelMessages st) (world st) = (Inr raw1, w1)
      \<and> parseAgentAction raw1 = None
      \<and> complete (modelMessages st @ [(Assistant, raw1), (User, invalidFormatMessage)]
            @ (if k = 0 then [(User, budgetMessage)] else [])) w1 = (Inr raw2, w2)
      \<and> parseAgentAction raw2 = None
    \<longrightarrow> (\<exists>st'. runFrom complete tools maxIterations (Suc k) st = Return EmptyResult st'
           \<and> stream st' \<noteq> [] \<and> last (stream st') = Markdown raw2
           \<and> calls st' = calls st @ [ModelCall, ModelCall]))
   \<and> (complete (modelMessages st) (world st) = (Inr raw, w)
      \<and> parseAgentAction raw \<noteq> None
      \<and> iterationBody complete tools st = Continue st1
    \<longrightarrow> parseFailureCount st1 = 0)
   \<and> (parseFailureCount st = 0
      \<and> complete (modelMessages st) (world st) = (Inr raw, w)
      \<and> parseAgentAction raw = None
    \<longrightarrow> (\<exists>st1. iterationBody complete tools st = Continue st1 \<and> parseFailureCount st1 = 1
          \<and> modelMessages st1 = modelMessages st @ [(Assistant, raw), (User, invalidFormatMessage)]
          \<and> stream st1 = stream st))"
proof (intro conjI impI)
  assume a: "parseFailureCount st = 0
      \<and> complete (modelMessages st) (world st) = (Inr raw1, w1)
      \<and> parseAgentAction raw1 = None
      \<and> complete (modelMessages st @ [(Assistant, raw1), (User, invalidFormatMessage)]
            @ (if k = 0 then [(User, budgetMessage)] else [])) w1 = (Inr raw2, w2)
      \<and> parseAgentAction raw2 = None"
  define st1 where "st1 = (after_completion st raw1 w1)\<lparr>parseFailureCount := parseFailureCount st + 1,
          modelMessages := modelMessages st @ [(Assistant, raw1), (User, invalidFormatMessage)]\<rparr>"
  have first: "iterationBody complete tools st = Continue st1"
    using a iterationBody_unparsable [where complete = complete and st = st and raw = raw1 and ?w1.0 = w1 and tools = tools]
    by (simp add: st1_def)
  have st1: "parseFailureCount st1 = 1" "world st1 = w1" "calls st1 = calls st @ [ModelCall]"
    "modelMessages st1 = modelMessages st @ [(Assistant, raw1), (User, invalidFormatMessage)]"
    using a by (simp_all add: st1_def after_completion_def)
  show "\<exists>st'. runFrom complete tools maxIterations (Suc k) st = Return EmptyResult st'
           \<and> stream st' \<noteq> [] \<and> last (stream st') = Markdown raw2
           \<and> calls st' = calls st @ [ModelCall, ModelCall]"
  proof (cases k)
    case 0
    have c2: "complete (modelMessages st1 @ [(User, budgetMessage)]) (world st1) = (Inr raw2, w2)"
      using a 0 st1 by simp
    from forcedCompletion_unparsable [where complete = complete and st = st1 and maxIterations = maxIterations, OF c2] a st1 first 0
    show ?thesis by (auto simp: runFrom_def)
  next
    case (Suc j)
    have c2: "complete (modelMessages st1) (world st1) = (Inr raw2, w2)"
      using a Suc st1 by simp
    have p2: "parseAgentAction raw2 = None" using a by simp
    have second: "iterationBody complete tools st1 =
        Return EmptyResult ((after_completion st1 raw2 w2)\<lparr>parseFailureCount := parseFailureCount st1 + 1,
          stream := stream st1 @ [Warning ''Model returned non-JSON output; returning raw response.'', Markdown raw2]\<rparr>)"
      using iterationBody_unparsable [where complete = complete and st = st1 and tools = tools, OF c2 p2] st1
      by simp
    show ?thesis
      using first second st1 Suc
      by (simp add: runFrom_def after_completion_def)
  qed
next
  assume b: "complete (modelMessages st) (world st) = (Inr raw, w)
      \<and> parseAgentAction raw \<noteq> None
      \<and> iterationBody complete tools st = Continue st1"
  then obtain a where pa: "parseAgentAction raw = Some a" by auto
  from b have c: "complete (modelMessages st) (world st) = (Inr raw, w)" by simp
  show "parseFailureCount st1 = 0"
  proof (cases a)
    case (FinalAction content)
    from b iterationBody_final [where complete = complete and st = st and tools = tools, OF c pa [unfolded FinalAction]]
    show ?thesis by (auto simp: after_completion_def split: if_splits)
  next
    case (ToolAction tool input)
    from b iterationBody_tool [where complete = complete and st = st and tools = tools, OF c pa [unfolded ToolAction]]
    show ?thesis
      by (auto simp: after_completion_def after_signature_def Let_def split: if_splits prod.splits sum.splits)
  qed
next
  assume d: "parseFailureCount st = 0
      \<and> complete (modelMessages st) (world st) = (Inr raw, w)
      \<and> parseAgentAction raw = None"
  then show "\<exists>st1. iterationBody complete tools st = Continue st1 \<and> parseFailureCount st1 = 1
          \<and> modelMessages st1 = modelMessages st @ [(Assistant, raw), (User, invalidFormatMessage)]
          \<and> stream st1 = stream st"
    using iterationBody_unparsable [where complete = complete and st = st and raw = raw and ?w1.0 = w and tools = tools]
    by (simp add: after_completion_def)
qed

theorem two_unparsable_completions_stop_witness:
  "(\<exists>st'. runFrom proseModel [] 6 2 emptyState = Return EmptyResult st'
       \<and> stream st' \<noteq> [] \<and> last (stream st') = Markdown ''still prose''
       \<and> calls st' = [ModelCall, ModelCall])
   \<and> (\<exists>st'. runFrom proseModel [] 1 1 emptyState = Return EmptyResult st'
       \<and> stream st' \<noteq> [] \<and> last (stream st') = Markdown ''still prose''
       \<and> calls st' = [ModelCall, ModelCall])
   \<and> (\<exists>st1. iterationBody toolModel [(''t'', \<lambda>i w. (Inr None, w))] (emptyState\<lparr>parseFailureCount := 1\<rparr>) = Continue st1
       \<and> parseFailureCount st1 = 0)
   \<and> (\<exists>st1. iterationBody proseModel [] emptyState = Continue st1 \<and> parseFailureCount st1 = 1
       \<and> modelMessages st1 = [(Assistant, ''I will look''), (User, invalidFormatMessage)]
       \<and> stream st1 = [])"
proof -
  have p1: "parseAgentAction ''I will look'' = None" by code_simp
  have p2: "parseAgentAction ''still prose'' = None" by code_simp
  have p3: \<open>parseAgentAction ''{"type":"tool","tool":"t","input":{}}'' = Some (ToolAction ''t'' (JObj []))\<close>
    by code_simp
  have a: "\<exists>st'. runFrom proseModel [] 6 2 emptyState = Return EmptyResult st'
       \<and> stream st' \<noteq> [] \<and> last (stream st') = Markdown ''still prose''
       \<and> calls st' = [ModelCall, ModelCall]"
    using two_unparsable_completions_stop [where st = emptyState and complete = proseModel
        and ?raw1.0 = "''I will look''" and ?w1.0 = "()" and k = "Suc 0" and ?raw2.0 = "''still prose''"
        and ?w2.0 = "()" and tools = "[]" and maxIterations = 6] p1 p2
    by (simp add: proseModel_def emptyState_def numeral_2_eq_2)
  have b: "\<exists>st'. runFrom proseModel [] 1 1 emptyState = Return EmptyResult st'
       \<and> stream st' \<noteq> [] \<and> last (stream st') = Markdown ''still prose''
       \<and> calls st' = [ModelCall, ModelCall]"
    using two_unparsable_completions_stop [where st = emptyState and complete = proseModel
        and ?raw1.0 = "''I will look''" and ?w1.0 = "()" and k = 0 and ?raw2.0 = "''still prose''"
        and ?w2.0 = "()" and tools = "[]" and maxIterations = 1] p1 p2
    by (simp add: proseModel_def emptyState_def)
  have c0: "\<exists>st1. iterationBody toolModel [(''t'', \<lambda>i w. (Inr None, w))] (emptyState\<lparr>parseFailureCount := 1\<rparr>) = Continue st1"
    using iterationBody_tool [where complete = toolModel and st = "emptyState\<lparr>parseFailureCount := 1\<rparr>"
        and tools = "[(''t'', \<lambda>i w. (Inr None, w))]", OF _ p3, of "()"]
    by (simp add: toolModel_def emptyState_def after_signature_def after_completion_def Let_def execute_def)
  then obtain st1 where c1: "iterationBody toolModel [(''t'', \<lambda>i w. (Inr None, w))] (emptyState\<lparr>parseFailureCount := 1\<rparr>) = Continue st1"
    by blast
  have "parseFailureCount st1 = 0"
    using two_unparsable_completions_stop [where st = "emptyState\<lparr>parseFailureCount := 1\<rparr>"
        and complete = toolModel and tools = "[(''t'', \<lambda>i w. (Inr None, w))]"
        and raw = \<open>''{"type":"tool","tool":"t","input":{}}''\<close> and w = "()" and ?st1.0 = st1] p3 c1
    by (simp add: toolModel_def)
  with c1 have c: "\<exists>st1. iterationBody toolModel [(''t'', \<lambda>i w. (Inr None, w))] (emptyState\<lparr>parseFailureCount := 1\<rparr>) = Continue st1
       \<and> parseFailureCount st1 = 0"
    by blast
  have d: "\<exists>st1. iterationBody proseModel [] emptyState = Continue st1 \<and> parseFailureCount st1 = 1
       \<and> modelMessages st1 = [(Assistant, ''I will look''), (User, invalidFormatMessage)]
       \<and> stream st1 = []"
    using two_unparsable_completions_stop [where st = emptyState and complete = proseModel
        and tools = "[]" and raw = "''I will look''" and w = "()"] p1
    by (simp add: proseModel_def emptyState_def)
  from a b c d show ?thesis by blast
qed

subsection \<open>Agent loop: refused capability\<close>

lemma refusalRetries_append [simp]:
  "refusalRetries (xs @ ys) = refusalRetries xs + refusalRetries ys"
  by (simp add: refusalRetries_def)

lemma refusalRetries_simps [simp]:
  "refusalRetries [] = 0"
  "refusalRetries (Markdown t # evs) = refusalRetries evs"
  "refusalRetries (Progress t # evs) = refusalRetries evs"
  "refusalRetries (Warning refusalWarning # evs) = Suc (refusalRetries evs)"
  "c \<noteq> CHR ''S'' \<Longrightarrow> refusalRetries (Warning (c # s) # evs) = refusalRetries evs"
  by (auto simp: refusalRetries_def refusalWarning_def)

lemma iterationBody_refusal:
  assumes "refusal_invariant st"
  shows "refusal_bounded (iterationBody complete tools st)"
proof (cases "complete (modelMessages st) (world st)")
  case (Pair res w1)
  show ?thesis
  proof (cases res)
    case (Inl e)
    with Pair assms show ?thesis
      by (simp add: iterationBody_throw refusal_bounded_def refusal_invariant_def)
  next
    case (Inr raw)
    note c = Pair [unfolded Inr]
    show ?thesis
    proof (cases "parseAgentAction raw")
      case None
      show ?thesis
        using assms
        by (simp add: iterationBody_unparsable [where complete = complete and st = st, OF c None]
            refusal_bounded_def refusal_invariant_def after_completion_def)
    next
      case (Some a)
      show ?thesis
      proof (cases a)
        case (FinalAction content)
        show ?thesis
          using assms
          by (simp add: iterationBody_final [where complete = complete and st = st, OF c Some [unfolded FinalAction]]
              refusal_bounded_def refusal_invariant_def after_completion_def)
      next
        case (ToolAction tool input)
        show ?thesis
          using assms
          by (simp add: iterationBody_tool [where complete = complete and st = st, OF c Some [unfolded ToolAction]]
              refusal_bounded_def refusal_invariant_def after_completion_def after_signature_def
              Let_def split: prod.splits sum.splits)
      qed
    qed
  qed
qed

lemma agentLoop_refusal:
  "refusal_invariant st \<Longrightarrow> refusal_bounded (agentLoop complete tools n st)"
proof (induction n arbitrary: st)
  case 0
  then show ?case by (simp add: refusal_bounded_def)
next
  case (Suc n)
  have b: "refusal_bounded (iterationBody complete tools st)"
    by (rule iterationBody_refusal [OF Suc.prems])
  show ?case
  proof (cases "iterationBody complete tools st")
    case (Continue st')
    with b have "refusal_invariant st'" by (simp add: refusal_bounded_def)
    then have "refusal_bounded (agentLoop complete tools n st')" by (rule Suc.IH)
    with Continue show ?thesis by simp
  next
    case (Return r st')
    with b show ?thesis by (simp add: refusal_bounded_def)
  next
    case (Throw e st')
    with b show ?thesis by (simp add: refusal_bounded_def)
  qed
qed

lemma forcedCompletion_refusal:
  "refusal_invariant st \<Longrightarrow> refusal_bounded (forcedCompletion complete maxIterations st)"
  by (simp add: forcedCompletion_def Let_def refusal_bounded_def refusal_invariant_def
      split: prod.splits sum.splits option.splits action.splits)

lemma runFrom_refusal:
  assumes "refusal_invariant st"
  shows "refusal_bounded (runFrom complete tools maxIterations n st)"
proof (cases "agentLoop complete tools n st")
  case (Continue st')
  with agentLoop_refusal [OF assms, of complete tools n] have "refusal_invariant st'"
    by (simp add: refusal_bounded_def)
  then have "refusal_bounded (forcedCompletion complete maxIterations st')"
    by (rule forcedCompletion_refusal)
  with Continue show ?thesis by (simp add: runFrom_def)
next
  case (Return r st')
  with agentLoop_refusal [OF assms, of complete tools n] show ?thesis
    by (simp add: runFrom_def refusal_bounded_def)
next
  case (Throw e st')
  with agentLoop_refusal [OF assms, of complete tools n] show ?thesis
    by (simp add: runFrom_def refusal_bounded_def)
qed

text \<open>
  Claim C9. A request announces the corrective retry for a refused capability at most
  once. Once \<open>capabilityRefusalRetryCount\<close> has reached 1, a final action ends the request
  with its content written to the stream (\<^verbatim>\<open>Done.\<close> for an empty content), whether or not
  the content looks like a refusal; with the counter at 0, a final action that looks like a
  refusal is retried once.
\<close>

theorem refusal_retry_at_most_once:
  "refusalRetries (stream (snd (handleRequest complete tools maxIterations systemPrompt history taskPrompt w0))) \<le> 1
   \<and> (complete (modelMessages st) (world st) = (Inr raw, w1)
       \<and> parseAgentAction raw = Some (FinalAction content)
       \<and> capabilityRefusalRetryCount st \<ge> 1
      \<longrightarrow> iterationBody complete tools st =
           Return EmptyResult (st\<lparr>calls := calls st @ [ModelCall], world := w1,
             modelMessages := modelMessages st @ [(Assistant, raw)],
             parseFailureCount := 0,
             stream := stream st @ [Markdown (if content \<noteq> [] then content else ''Done.'')]\<rparr>))
   \<and> (complete (modelMessages st) (world st) = (Inr raw, w1)
       \<and> parseAgentAction raw = Some (FinalAction content)
       \<and> looksLikeSearchCapabilityRefusal content
       \<and> capabilityRefusalRetryCount st = 0
      \<longrightarrow> iterationBody complete tools st =
           Continue (st\<lparr>calls := calls st @ [ModelCall], world := w1,
             parseFailureCount := 0,
             capabilityRefusalRetryCount := 1,
             stream := stream st @ [Warning refusalWarning],
             modelMessages := modelMessages st @ [(Assistant, raw), (User, refusalMessage)]\<rparr>))"
proof (intro conjI impI)
  have "refusal_invariant (initialState systemPrompt history taskPrompt w0)"
    by (simp add: refusal_invariant_def initialState_def)
  from runFrom_refusal [OF this, of complete tools maxIterations maxIterations]
  show "refusalRetries (stream (snd (handleRequest complete tools maxIterations systemPrompt history taskPrompt w0))) \<le> 1"
    by (cases "runFrom complete tools maxIterations maxIterations (initialState systemPrompt history taskPrompt w0)")
       (simp_all add: handleRequest_def catchFailure_def refusal_bounded_def refusal_invariant_def Let_def)
next
  assume a: "complete (modelMessages st) (world st) = (Inr raw, w1)
       \<and> parseAgentAction raw = Some (FinalAction content)
       \<and> capabilityRefusalRetryCount st \<ge> 1"
  then show "iterationBody complete tools st =
           Return EmptyResult (st\<lparr>calls := calls st @ [ModelCall], world := w1,
             modelMessages := modelMessages st @ [(Assistant, raw)],
             parseFailureCount := 0,
             stream := stream st @ [Markdown (if content \<noteq> [] then content else ''Done.'')]\<rparr>)"
    using iterationBody_final [where complete = complete and st = st and raw = raw and ?w1.0 = w1
        and content = content and tools = tools]
    by (simp add: after_completion_def)
next
  assume a: "complete (modelMessages st) (world st) = (Inr raw, w1)
       \<and> parseAgentAction raw = Some (FinalAction content)
       \<and> looksLikeSearchCapabilityRefusal content
       \<and> capabilityRefusalRetryCount st = 0"
  then show "iterationBody complete tools st =
           Continue (st\<lparr>calls := calls st @ [ModelCall], world := w1,
             parseFailureCount := 0,
             capabilityRefusalRetryCount := 1,
             stream := stream st @ [Warning refusalWarning],
             modelMessages := modelMessages st @ [(Assistant, raw), (User, refusalMessage)]\<rparr>)"
    using iterationBody_final [where complete = complete and st = st and raw = raw and ?w1.0 = w1
        and content = content and tools = tools]
    by (simp add: after_completion_def)
qed

theorem refusal_retry_at_most_once_witness:
  \<open>looksLikeSearchCapabilityRefusal ''search unavailable''
   \<and> iterationBody refusingModel [] (emptyState\<lparr>capabilityRefusalRetryCount := 1, stream := [Warning refusalWarning]\<rparr>) =
       Return EmptyResult (emptyState\<lparr>capabilityRefusalRetryCount := 1,
          calls := [ModelCall],
          modelMessages := [(Assistant, ''{"type":"final","content":"search unavailable"}'')],
          stream := [Warning refusalWarning, Markdown ''search unavailable'']\<rparr>)
   \<and> iterationBody refusingModel [] emptyState =
       Continue (emptyState\<lparr>capabilityRefusalRetryCount := 1,
          calls := [ModelCall],
          modelMessages := [(Assistant, ''{"type":"final","content":"search unavailable"}''), (User, refusalMessage)],
          stream := [Warning refusalWarning]\<rparr>)\<close>
proof -
  have l: "looksLikeSearchCapabilityRefusal ''search unavailable''" by code_simp
  have p: \<open>parseAgentAction ''{"type":"final","content":"search unavailable"}'' = Some (FinalAction ''search unavailable'')\<close>
    by code_simp
  show ?thesis
    using refusal_retry_at_most_once [where complete = refusingModel
        and st = "emptyState\<lparr>capabilityRefusalRetryCount := 1, stream := [Warning refusalWarning]\<rparr>"
        and raw = \<open>''{"type":"final","content":"search unavailable"}''\<close> and ?w1.0 = "()"
        and content = "''search unavailable''" and tools = "[]"]
      refusal_retry_at_most_once [where complete = refusingModel and st = emptyState
        and raw = \<open>''{"type":"final","content":"search unavailable"}''\<close> and ?w1.0 = "()"
        and content = "''search unavailable''" and tools = "[]"]
      l p
    by (simp add: refusingModel_def emptyState_def)
qed

subsection \<open>Strings and numbers are read back\<close>

lemma hex_value_hex_char: "d < 16 \<Longrightarrow> hex_value (hex_char d) = Some d"
  by (auto simp: hex_value_def hex_char_def Let_def)

lemma hex_value_zero: "hex_value (CHR ''0'') = Some 0"
  by (simp add: hex_value_def)

lemma unicode_escape_low:
  "(of_char c :: nat) < 32 \<Longrightarrow>
   unicode_escape (CHR ''0'') (CHR ''0'') (hex_char ((of_char c :: nat) div 16)) (hex_char ((of_char c :: nat) mod 16)) = Some c"
proof -
  assume a: "(of_char c :: nat) < 32"
  let ?n = "of_char c :: nat"
  have h1: "hex_value (hex_char (?n div 16)) = Some (?n div 16)"
    using a by (intro hex_value_hex_char) simp
  have h2: "hex_value (hex_char (?n mod 16)) = Some (?n mod 16)"
    by (intro hex_value_hex_char) simp
  have "char_of (16 * (?n div 16) + ?n mod 16) = c"
    by simp
  then show ?thesis
    by (simp add: unicode_escape_def hex_value_zero h1 h2)
qed

lemma parse_chars_quote_char:
  "parse_chars (quote_char c @ rest) = cons_result c (parse_chars rest)"
proof -
  consider (dq) "c = dq" | (bs) "c = bslash" | (b) "c = CHR 0x08" | (f) "c = CHR 0x0C"
    | (n) "c = CHR 0x0A" | (r) "c = CHR 0x0D" | (t) "c = CHR 0x09"
    | (u) "c \<noteq> dq" "c \<noteq> bslash" "c \<noteq> CHR 0x08" "c \<noteq> CHR 0x0C" "c \<noteq> CHR 0x0A" "c \<noteq> CHR 0x0D"
        "c \<noteq> CHR 0x09" "(of_char c :: nat) < 32"
    | (lit) "c \<noteq> dq" "c \<noteq> bslash" "\<not> (of_char c :: nat) < 32"
    by (cases "(of_char c :: nat) < 32") auto
  then show ?thesis
  proof cases
    case dq
    then show ?thesis by (simp add: quote_char_def simple_escape_def dq_def bslash_def)
  next
    case bs
    then show ?thesis by (simp add: quote_char_def simple_escape_def dq_def bslash_def)
  next
    case b
    then show ?thesis by (simp add: quote_char_def simple_escape_def dq_def bslash_def)
  next
    case f
    then show ?thesis by (simp add: quote_char_def simple_escape_def dq_def bslash_def)
  next
    case n
    then show ?thesis by (simp add: quote_char_def simple_escape_def dq_def bslash_def)
  next
    case r
    then show ?thesis by (simp add: quote_char_def simple_escape_def dq_def bslash_def)
  next
    case t
    then show ?thesis by (simp add: quote_char_def simple_escape_def dq_def bslash_def)
  next
    case u
    have q: "quote_char c = [bslash, CHR ''u'', CHR ''0'', CHR ''0'',
              hex_char ((of_char c :: nat) div 16), hex_char ((of_char c :: nat) mod 16)]"
      using u by (simp add: quote_char_def)
    show ?thesis
      by (simp add: q unicode_escape_low [OF u(8)] dq_def bslash_def)
  next
    case lit
    then show ?thesis by (auto simp: quote_char_def)
  qed
qed

lemma parse_chars_quoted:
  "parse_chars (concat (map quote_char s) @ dq # rest) = Some (s, rest)"
  by (induction s) (simp_all add: parse_chars_quote_char cons_result_def)

lemma parse_chars_quote_string:
  "quote_string s @ rest = dq # cs \<Longrightarrow> parse_chars cs = Some (s, rest)"
  using parse_chars_quoted [of s rest] by (simp add: quote_string_def)

lemma of_char_digit_char:
  "0 \<le> d \<Longrightarrow> d < 10 \<Longrightarrow> (of_char (digit_char d) :: nat) = nat (48 + d)"
proof -
  assume "0 \<le> d" "d < 10"
  then have "nat (48 + d) < 256" by simp
  then show ?thesis by (simp add: digit_char_def)
qed

lemma is_digit_digit_char: "0 \<le> d \<Longrightarrow> d < 10 \<Longrightarrow> is_digit (digit_char d)"
  by (simp add: is_digit_def of_char_digit_char) linarith

lemma digit_value_digit_char: "0 \<le> d \<Longrightarrow> d < 10 \<Longrightarrow> digit_value (digit_char d) = d"
  by (simp add: digit_value_def of_char_digit_char)

lemma digit_char_zero: "0 \<le> d \<Longrightarrow> d < 10 \<Longrightarrow> digit_char d = CHR ''0'' \<longleftrightarrow> d = 0"
proof -
  assume a: "0 \<le> d" "d < 10"
  have "digit_char d = CHR ''0'' \<longleftrightarrow> (of_char (digit_char d) :: nat) = of_char (CHR ''0'')"
    by (simp flip: of_char_eq_iff [where ?'a = nat])
  also have "\<dots> \<longleftrightarrow> d = 0"
    using a by (simp add: of_char_digit_char) linarith
  finally show ?thesis .
qed

lemma show_dec_zero: "show_dec 0 = ''0''"
proof -
  have "(of_char (digit_char 0) :: nat) = of_char (CHR ''0'')"
    by (simp add: of_char_digit_char)
  then have "digit_char 0 = CHR ''0''"
    by (simp only: of_char_eq_iff)
  then show ?thesis
    by (simp add: show_dec.simps [of 0])
qed

lemma read_dec_snoc: "read_dec (ds @ [c]) = 10 * read_dec ds + digit_value c"
  by (simp add: read_dec_def)

lemma show_dec_props:
  "0 \<le> n \<Longrightarrow> show_dec n \<noteq> [] \<and> list_all is_digit (show_dec n) \<and> read_dec (show_dec n) = n
     \<and> (hd (show_dec n) = CHR ''0'' \<longleftrightarrow> n = 0) \<and> (n = 0 \<longrightarrow> show_dec n = ''0'')"
proof (induction n rule: show_dec.induct)
  case (1 n)
  show ?case
  proof (cases "n < 10")
    case True
    with 1(2) show ?thesis
      by (auto simp: show_dec.simps [of n] is_digit_digit_char digit_value_digit_char digit_char_zero
          read_dec_def show_dec_zero)
  next
    case False
    then have pos: "0 \<le> n div 10" "n div 10 \<noteq> 0" using 1(2) by auto
    from 1(1) [OF False pos(1)] have ih: "show_dec (n div 10) \<noteq> []"
      "list_all is_digit (show_dec (n div 10))" "read_dec (show_dec (n div 10)) = n div 10"
      "hd (show_dec (n div 10)) \<noteq> CHR ''0''"
      using pos(2) by auto
    have m: "0 \<le> n mod 10" "n mod 10 < 10" by auto
    show ?thesis
      using False ih m 1(2)
      by (simp add: show_dec.simps [of n] read_dec_snoc is_digit_digit_char digit_value_digit_char)
  qed
qed

lemma follows_value_simps [simp]:
  "follows_value []" "follows_value (CHR '','' # cs)" "follows_value (CHR '']'' # cs)"
  "follows_value (CHR ''}'' # cs)"
  by (simp_all add: follows_value_def)

lemma follows_value_not_digit:
  "follows_value rest \<Longrightarrow> takeWhile is_digit rest = [] \<and> dropWhile is_digit rest = rest"
  by (auto simp: follows_value_def is_digit_def split: list.splits)

lemma parse_digits_show_dec:
  assumes "0 \<le> n" and "follows_value rest"
  shows "parse_digits (show_dec n @ rest) = Some (n, rest)"
proof -
  from show_dec_props [OF assms(1)] have p: "show_dec n \<noteq> []" "list_all is_digit (show_dec n)"
    "read_dec (show_dec n) = n" "hd (show_dec n) = CHR ''0'' \<longleftrightarrow> n = 0" "n = 0 \<longrightarrow> show_dec n = ''0''"
    by auto
  have all: "\<forall>x\<in>set (show_dec n). is_digit x"
    using p(2) by (simp add: list_all_iff)
  have tw: "takeWhile is_digit (show_dec n @ rest) = show_dec n"
    using all follows_value_not_digit [OF assms(2)] by (simp add: takeWhile_append2)
  have dw: "dropWhile is_digit (show_dec n @ rest) = rest"
    using all follows_value_not_digit [OF assms(2)] by (simp add: dropWhile_append2)
  show ?thesis
  proof (cases "n = 0")
    case True
    with p(5) show ?thesis
      using follows_value_not_digit [OF assms(2)]
      by (simp add: parse_digits_def Let_def is_digit_def)
  next
    case False
    with p show ?thesis
      by (simp add: parse_digits_def Let_def tw dw)
  qed
qed

lemma parse_number_show_int:
  assumes "follows_value rest"
  shows "parse_number (show_int i @ rest) = Some (JNum i, rest)"
proof -
  have sep: "\<not> (rest \<noteq> [] \<and> (hd rest = CHR ''.'' \<or> hd rest = CHR ''e'' \<or> hd rest = CHR ''E''))"
    using assms by (auto simp: follows_value_def split: list.splits)
  show ?thesis
  proof (cases "i < 0")
    case True
    then have "parse_digits (show_dec (- i) @ rest) = Some (- i, rest)"
      by (intro parse_digits_show_dec assms) simp
    with True sep show ?thesis
      by (simp add: parse_number_def show_int_def Let_def)
  next
    case False
    then have pd: "parse_digits (show_dec i @ rest) = Some (i, rest)"
      by (intro parse_digits_show_dec assms) simp
    from False show_dec_props [of i] have ne: "show_dec i \<noteq> []" "list_all is_digit (show_dec i)"
      by auto
    then have "is_digit (hd (show_dec i))"
      by (cases "show_dec i") auto
    then have "hd (show_dec i) \<noteq> CHR ''-''"
      by (auto simp: is_digit_def)
    with False sep pd ne show ?thesis
      by (simp add: parse_number_def show_int_def Let_def)
  qed
qed

subsection \<open>Property order\<close>

lemma ordered_keys_snoc_index:
  "ordered_keys (ks @ [k]) \<Longrightarrow> is_array_index k \<Longrightarrow>
   \<forall>k' \<in> set ks. is_array_index k' \<and> read_dec k' < read_dec k"
proof (induction ks rule: ordered_keys.induct)
  case 1
  then show ?case by simp
next
  case (2 k1)
  then show ?case by simp
next
  case (3 k1 k2 ks)
  from 3(2) have a: "ordered_keys ((k2 # ks) @ [k])" by simp
  from 3(1) [OF a 3(3)] have ih: "\<forall>k'\<in>set (k2 # ks). is_array_index k' \<and> read_dec k' < read_dec k" .
  then have "is_array_index k2" "read_dec k2 < read_dec k" by auto
  with 3(2) have "is_array_index k1 \<and> read_dec k1 < read_dec k" by auto
  with ih show ?case by auto
qed

lemma ordered_keys_butlast: "ordered_keys (ks @ [k]) \<Longrightarrow> ordered_keys ks"
  by (induction ks rule: ordered_keys.induct) (auto split: if_splits)

lemma obj_insert_index_end:
  "\<forall>p \<in> set ms. is_array_index (fst p) \<and> read_dec (fst p) < read_dec k \<Longrightarrow>
   obj_insert_index k v ms = ms @ [(k, v)]"
  by (induction ms) auto

lemma obj_put_new:
  assumes "k \<notin> fst ` set ms"
    and "is_array_index k \<Longrightarrow> \<forall>p \<in> set ms. is_array_index (fst p) \<and> read_dec (fst p) < read_dec k"
  shows "obj_put k v ms = ms @ [(k, v)]"
proof -
  from assms(1) have "map_of ms k = None"
    by (simp add: map_of_eq_None_iff)
  with assms(2) show ?thesis
    by (simp add: obj_put_def obj_insert_index_end)
qed

lemma obj_of_members_snoc:
  "obj_of_members (ms @ [(k, v)]) = obj_put k v (obj_of_members ms)"
  by (simp add: obj_of_members_def)

lemma obj_of_members_ordered:
  "object_order ms \<Longrightarrow> obj_of_members ms = ms"
proof (induction ms rule: rev_induct)
  case Nil
  show ?case by (simp add: obj_of_members_def)
next
  case (snoc p ms)
  obtain k v where p: "p = (k, v)" by (cases p)
  from snoc.prems have d: "distinct (map fst ms)" "k \<notin> fst ` set ms"
    and o: "ordered_keys (map fst ms @ [k])"
    by (auto simp: object_order_def p)
  from o have "ordered_keys (map fst ms)" by (rule ordered_keys_butlast)
  with d have "object_order ms" by (simp add: object_order_def)
  then have ih: "obj_of_members ms = ms" by (rule snoc.IH)
  have "obj_put k v ms = ms @ [(k, v)]"
  proof (rule obj_put_new [OF d(2)])
    assume "is_array_index k"
    from ordered_keys_snoc_index [OF o this]
    show "\<forall>p\<in>set ms. is_array_index (fst p) \<and> read_dec (fst p) < read_dec k" by auto
  qed
  then show ?case
    by (simp add: p obj_of_members_snoc ih)
qed

subsection \<open>JSON.parse inverts JSON.stringify\<close>

lemma value_start_props:
  "value_start c \<Longrightarrow> \<not> is_json_ws c \<and> c \<noteq> CHR '']'' \<and> c \<noteq> CHR ''}''"
  by (auto simp: value_start_def is_json_ws_def is_digit_def dq_def)

lemma show_int_start: "\<exists>c cs. show_int i = c # cs \<and> (c = CHR ''-'' \<or> is_digit c)"
proof (cases "i < 0")
  case True
  then show ?thesis by (simp add: show_int_def)
next
  case False
  with show_dec_props [of i] have "show_dec i \<noteq> []" "list_all is_digit (show_dec i)" by auto
  then obtain c cs where "show_dec i = c # cs" "is_digit c" by (cases "show_dec i") auto
  with False show ?thesis by (simp add: show_int_def)
qed

lemma JSON_stringify_start: "\<exists>c cs. JSON_stringify v = c # cs \<and> value_start c"
proof (cases v)
  case (JNum i)
  from show_int_start [of i] show ?thesis
    by (auto simp: JNum value_start_def)
qed (auto simp: value_start_def quote_string_def)

lemma stringify_elements_start:
  "xs \<noteq> [] \<Longrightarrow> \<exists>c cs. stringify_elements xs = c # cs \<and> value_start c"
proof (cases xs)
  case Nil
  assume "xs \<noteq> []"
  with Nil show ?thesis by simp
next
  case (Cons x ys)
  from JSON_stringify_start [of x] obtain c cs where s: "JSON_stringify x = c # cs" "value_start c"
    by blast
  show ?thesis
  proof (cases ys)
    case Nil
    with Cons s show ?thesis by simp
  next
    case (Cons y zs)
    with \<open>xs = x # ys\<close> s show ?thesis by simp
  qed
qed

lemma stringify_members_start:
  "ms \<noteq> [] \<Longrightarrow> \<exists>cs. stringify_members ms = dq # cs"
proof (cases ms)
  case Nil
  assume "ms \<noteq> []"
  with Nil show ?thesis by simp
next
  case (Cons p ps)
  obtain k v where p: "p = (k, v)" by (cases p)
  show ?thesis
    by (cases ps) (simp_all add: Cons p quote_string_def)
qed

lemma skip_ws_start [simp]: "\<not> is_json_ws c \<Longrightarrow> skip_ws (c # cs) = c # cs"
  by (simp add: skip_ws_def)

lemma skip_ws_punct [simp]:
  "skip_ws (CHR '','' # cs) = CHR '','' # cs"
  "skip_ws (CHR '']'' # cs) = CHR '']'' # cs"
  "skip_ws (CHR ''}'' # cs) = CHR ''}'' # cs"
  "skip_ws (CHR '':'' # cs) = CHR '':'' # cs"
  "skip_ws (dq # cs) = dq # cs"
  by (simp_all add: skip_ws_def is_json_ws_def dq_def)

lemma parse_value_null:
  "parse_value (Suc n) (''null'' @ rest) = Some (JNull, rest)"
  by (simp add: skip_ws_def is_json_ws_def startsWith_def dq_def)

lemma parse_value_true:
  "parse_value (Suc n) (''true'' @ rest) = Some (JBool True, rest)"
  by (simp add: skip_ws_def is_json_ws_def startsWith_def dq_def)

lemma parse_value_false:
  "parse_value (Suc n) (''false'' @ rest) = Some (JBool False, rest)"
  by (simp add: skip_ws_def is_json_ws_def startsWith_def dq_def)

lemma parse_value_number:
  assumes "follows_value rest"
  shows "parse_value (Suc n) (show_int i @ rest) = Some (JNum i, rest)"
proof -
  from show_int_start [of i] obtain c cs where s: "show_int i = c # cs" "c = CHR ''-'' \<or> is_digit c"
    by blast
  have pn: "parse_number (c # cs @ rest) = Some (JNum i, rest)"
    using parse_number_show_int [OF assms, of i] s(1) by simp
  from s(2) have "\<not> is_json_ws c" "c \<noteq> CHR ''{''" "c \<noteq> CHR ''[''" "c \<noteq> dq"
    "c \<noteq> CHR ''t''" "c \<noteq> CHR ''f''" "c \<noteq> CHR ''n''"
    by (auto simp: is_json_ws_def is_digit_def dq_def)
  then show ?thesis
    by (simp add: s(1) startsWith_def pn)
qed

lemma dq_distinct [simp]:
  "dq \<noteq> CHR ''{''" "dq \<noteq> CHR ''[''" "dq \<noteq> CHR ''}''" "dq \<noteq> CHR '']''" "\<not> is_json_ws dq"
  "dq \<noteq> bslash"
  by (simp_all add: dq_def is_json_ws_def bslash_def)

lemma parse_value_string:
  "parse_value (Suc n) (quote_string s @ rest) = Some (JStr s, rest)"
  by (simp add: quote_string_def parse_chars_quoted)

lemma parse_value_array:
  "parse_value (Suc n) (CHR ''['' # cs) =
     (case skip_ws cs of
        [] \<Rightarrow> None
      | d # r' \<Rightarrow>
          if d = CHR '']'' then Some (JArr [], r')
          else (case parse_elements n (d # r') of
                  None \<Rightarrow> None
                | Some (xs, rest) \<Rightarrow> Some (JArr xs, rest)))"
  by (simp add: skip_ws_def is_json_ws_def dq_def)

lemma parse_value_object:
  "parse_value (Suc n) (CHR ''{'' # cs) =
     (case skip_ws cs of
        [] \<Rightarrow> None
      | d # r' \<Rightarrow>
          if d = CHR ''}'' then Some (JObj [], r')
          else (case parse_members n (d # r') of
                  None \<Rightarrow> None
                | Some (ms, rest) \<Rightarrow> Some (JObj (obj_of_members ms), rest)))"
  by (simp add: skip_ws_def is_json_ws_def dq_def)

lemma parse_elements_step:
  "parse_value n cs = Some (v, c # r') \<Longrightarrow> c = CHR '','' \<or> c = CHR '']'' \<Longrightarrow>
   parse_elements (Suc n) cs =
     (if c = CHR '','' then cons_result v (parse_elements n r') else Some ([v], r'))"
  by auto

lemma parse_members_step:
  "parse_value n cs = Some (v, c # r') \<Longrightarrow> c = CHR '','' \<or> c = CHR ''}'' \<Longrightarrow>
   parse_members (Suc n) (quote_string k @ CHR '':'' # cs) =
     (if c = CHR '','' then cons_result (k, v) (parse_members n r') else Some ([(k, v)], r'))"
  by (auto simp: quote_string_def parse_chars_quoted)

lemma parse_stringify_mutual:
  "(\<forall>n rest. parse_fuel v \<le> n \<longrightarrow> wf_json v \<longrightarrow> follows_value rest \<longrightarrow>
      parse_value n (JSON_stringify v @ rest) = Some (v, rest))"
  "(xs \<noteq> [] \<longrightarrow> (\<forall>n rest. fuel_elements xs \<le> n \<longrightarrow> wf_elements xs \<longrightarrow>
      parse_elements n (stringify_elements xs @ CHR '']'' # rest) = Some (xs, rest)))"
  "(ms \<noteq> [] \<longrightarrow> (\<forall>n rest. fuel_members ms \<le> n \<longrightarrow> wf_members ms \<longrightarrow>
      parse_members n (stringify_members ms @ CHR ''}'' # rest) = Some (ms, rest)))"
proof (induction v and xs and ms rule: JSON_stringify_stringify_elements_stringify_members.induct)
  case 1
  show ?case
  proof (intro allI impI)
    fix n rest assume "parse_fuel JNull \<le> n"
    then obtain n' where "n = Suc n'" by (cases n) auto
    then show "parse_value n (JSON_stringify JNull @ rest) = Some (JNull, rest)"
      using parse_value_null [of n' rest] by simp
  qed
next
  case (2 b)
  show ?case
  proof (intro allI impI)
    fix n rest assume "parse_fuel (JBool b) \<le> n"
    then obtain n' where "n = Suc n'" by (cases n) auto
    then show "parse_value n (JSON_stringify (JBool b) @ rest) = Some (JBool b, rest)"
      using parse_value_true [of n' rest] parse_value_false [of n' rest] by simp
  qed
next
  case (3 i)
  show ?case
  proof (intro allI impI)
    fix n rest assume "parse_fuel (JNum i) \<le> n" and f: "follows_value rest"
    then obtain n' where "n = Suc n'" by (cases n) auto
    then show "parse_value n (JSON_stringify (JNum i) @ rest) = Some (JNum i, rest)"
      using parse_value_number [OF f, of n' i] by simp
  qed
next
  case (4 s)
  show ?case
  proof (intro allI impI)
    fix n rest assume "parse_fuel (JStr s) \<le> n"
    then obtain n' where "n = Suc n'" by (cases n) auto
    then show "parse_value n (JSON_stringify (JStr s) @ rest) = Some (JStr s, rest)"
      using parse_value_string [of n' s rest] by simp
  qed
next
  case (5 xs)
  show ?case
  proof (intro allI impI)
    fix n rest assume fuel: "parse_fuel (JArr xs) \<le> n" and wf: "wf_json (JArr xs)"
    then obtain n' where n: "n = Suc n'" "fuel_elements xs \<le> n'" by (cases n) auto
    show "parse_value n (JSON_stringify (JArr xs) @ rest) = Some (JArr xs, rest)"
    proof (cases "xs = []")
      case True
      then show ?thesis by (simp add: n parse_value_array del: parse_value.simps)
    next
      case False
      from stringify_elements_start [OF False] obtain c cs where
        s: "stringify_elements xs = c # cs" "value_start c" by blast
      from 5 False n(2) wf have "parse_elements n' (stringify_elements xs @ CHR '']'' # rest) = Some (xs, rest)"
        by simp
      with s value_start_props [OF s(2)] show ?thesis
        by (simp add: n parse_value_array del: parse_value.simps)
    qed
  qed
next
  case (6 ms)
  show ?case
  proof (intro allI impI)
    fix n rest assume fuel: "parse_fuel (JObj ms) \<le> n" and wf: "wf_json (JObj ms)"
    then obtain n' where n: "n = Suc n'" "fuel_members ms \<le> n'" by (cases n) auto
    from wf have oo: "obj_of_members ms = ms" by (simp add: obj_of_members_ordered)
    show "parse_value n (JSON_stringify (JObj ms) @ rest) = Some (JObj ms, rest)"
    proof (cases "ms = []")
      case True
      then show ?thesis by (simp add: n parse_value_object del: parse_value.simps)
    next
      case False
      from stringify_members_start [OF False] obtain cs where
        s: "stringify_members ms = dq # cs" by blast
      from 6 False n(2) wf have "parse_members n' (stringify_members ms @ CHR ''}'' # rest) = Some (ms, rest)"
        by simp
      with s show ?thesis
        by (simp add: n parse_value_object oo del: parse_value.simps)
    qed
  qed
next
  case 7
  show ?case by simp
next
  case (8 x)
  show ?case
  proof (intro allI impI)
    fix n rest assume fuel: "fuel_elements [x] \<le> n" and wf: "wf_elements [x]"
    then obtain n' where n: "n = Suc n'" "parse_fuel x \<le> n'" by (cases n) auto
    from 8 n(2) wf have "parse_value n' (JSON_stringify x @ CHR '']'' # rest) = Some (x, CHR '']'' # rest)"
      by simp
    from parse_elements_step [OF this] show "parse_elements n (stringify_elements [x] @ CHR '']'' # rest) = Some ([x], rest)"
      by (simp add: n)
  qed
next
  case (9 x y ys)
  show ?case
  proof (intro allI impI)
    fix n rest assume fuel: "fuel_elements (x # y # ys) \<le> n" and wf: "wf_elements (x # y # ys)"
    then obtain n' where n: "n = Suc n'" "parse_fuel x \<le> n'" "fuel_elements (y # ys) \<le> n'"
      by (cases n) auto
    let ?tail = "stringify_elements (y # ys) @ CHR '']'' # rest"
    from 9(1) n(2) wf have "parse_value n' (JSON_stringify x @ CHR '','' # ?tail) = Some (x, CHR '','' # ?tail)"
      by simp
    from parse_elements_step [OF this]
    have "parse_elements (Suc n') (JSON_stringify x @ CHR '','' # ?tail) = cons_result x (parse_elements n' ?tail)"
      by simp
    moreover from 9(2) n(3) wf have "parse_elements n' ?tail = Some (y # ys, rest)"
      by simp
    ultimately show "parse_elements n (stringify_elements (x # y # ys) @ CHR '']'' # rest) = Some (x # y # ys, rest)"
      by (simp add: n cons_result_def)
  qed
next
  case 10
  show ?case by simp
next
  case (11 k v)
  show ?case
  proof (intro allI impI)
    fix n rest assume fuel: "fuel_members [(k, v)] \<le> n" and wf: "wf_members [(k, v)]"
    then obtain n' where n: "n = Suc n'" "parse_fuel v \<le> n'" by (cases n) auto
    from 11 n(2) wf have "parse_value n' (JSON_stringify v @ CHR ''}'' # rest) = Some (v, CHR ''}'' # rest)"
      by simp
    from parse_members_step [OF this, of k] show "parse_members n (stringify_members [(k, v)] @ CHR ''}'' # rest) = Some ([(k, v)], rest)"
      by (simp add: n)
  qed
next
  case (12 k v m ms)
  show ?case
  proof (intro allI impI)
    fix n rest assume fuel: "fuel_members ((k, v) # m # ms) \<le> n" and wf: "wf_members ((k, v) # m # ms)"
    then obtain n' where n: "n = Suc n'" "parse_fuel v \<le> n'" "fuel_members (m # ms) \<le> n'"
      by (cases n) auto
    let ?tail = "stringify_members (m # ms) @ CHR ''}'' # rest"
    from 12(1) n(2) wf have "parse_value n' (JSON_stringify v @ CHR '','' # ?tail) = Some (v, CHR '','' # ?tail)"
      by simp
    from parse_members_step [OF this, of k]
    have "parse_members (Suc n') (quote_string k @ CHR '':'' # JSON_stringify v @ CHR '','' # ?tail)
        = cons_result (k, v) (parse_members n' ?tail)"
      by simp
    moreover from 12(2) n(3) wf have "parse_members n' ?tail = Some (m # ms, rest)"
      by simp
    ultimately show "parse_members n (stringify_members ((k, v) # m # ms) @ CHR ''}'' # rest) = Some ((k, v) # m # ms, rest)"
      by (simp add: n cons_result_def)
  qed
qed

lemma fuel_le_length:
  "parse_fuel v \<le> length (JSON_stringify v)"
  "fuel_elements xs \<le> length (stringify_elements xs) + 1"
  "fuel_members ms \<le> length (stringify_members ms) + 1"
proof (induction v and xs and ms rule: JSON_stringify_stringify_elements_stringify_members.induct)
  case (3 i)
  from show_int_start [of i] show ?case by auto
qed (auto simp: quote_string_def)

lemma JSON_parse_stringify:
  assumes "wf_json v"
  shows "JSON_parse (JSON_stringify v) = Some v"
proof -
  have "parse_fuel v \<le> 2 * length (JSON_stringify v) + 1"
    using fuel_le_length(1) [of v] by simp
  with parse_stringify_mutual(1) [of v] assms
  have "parse_value (2 * length (JSON_stringify v) + 1) (JSON_stringify v @ []) = Some (v, [])"
    by (metis follows_value_simps(1))
  then show ?thesis
    by (simp add: JSON_parse_def skip_ws_def)
qed

subsection \<open>The counter of the reader is large enough\<close>

text \<open>
  Every reader consumes input, so \<open>2 * length s + 1\<close> nested calls suffice for a text \<open>s\<close>:
  a larger counter gives the same result, and \<open>JSON_parse\<close> never fails for lack of it.
\<close>

lemma skip_ws_length: "length (skip_ws cs) \<le> length cs"
  by (simp add: skip_ws_def length_dropWhile_le)

lemma skip_ws_Cons_length: "skip_ws cs = c # r \<Longrightarrow> length r < length cs"
  using skip_ws_length [of cs] by simp

lemma cons_result_Some:
  "cons_result x r = Some (ys, rest) \<Longrightarrow> \<exists>xs. r = Some (xs, rest) \<and> ys = x # xs"
  by (auto simp: cons_result_def split: option.splits)

lemma parse_chars_length:
  "parse_chars cs = Some (s, rest) \<Longrightarrow> length rest < length cs"
proof (induction "length cs" arbitrary: cs s rest rule: less_induct)
  case less
  from less.prems obtain c cs' where cs: "cs = c # cs'" by (cases cs) auto
  have step: "length rest < length cs" if "parse_chars r = Some (xs, rest)" "length r < length cs" for r xs
    using less.hyps [OF that(2) that(1)] that(2) by simp
  show ?case
  proof (cases "c = dq")
    case True
    with less.prems cs show ?thesis by simp
  next
    case ndq: False
    show ?thesis
    proof (cases "c = bslash")
      case True
      then obtain e r where r: "cs' = e # r" using less.prems ndq cs by (cases cs') auto
      show ?thesis
      proof (cases "e = CHR ''u''")
        case u: True
        from less.prems ndq True cs r u obtain a b x y r' where r': "r = a # b # x # y # r'"
          by (auto split: list.splits)
        from less.prems ndq True cs r u r' obtain ch where ch: "unicode_escape a b x y = Some ch"
          by (auto split: option.splits)
        from less.prems ndq True cs r u r' ch have "cons_result ch (parse_chars r') = Some (s, rest)"
          by simp
        from cons_result_Some [OF this] obtain xs where "parse_chars r' = Some (xs, rest)" by blast
        then show ?thesis by (rule step) (simp add: cs r r')
      next
        case nu: False
        from less.prems ndq True cs r nu obtain ch where ch: "simple_escape e = Some ch"
          by (auto split: option.splits)
        from less.prems ndq True cs r nu ch have "cons_result ch (parse_chars r) = Some (s, rest)"
          by simp
        from cons_result_Some [OF this] obtain xs where "parse_chars r = Some (xs, rest)" by blast
        then show ?thesis by (rule step) (simp add: cs r)
      qed
    next
      case nbs: False
      from less.prems cs ndq nbs have lo: "\<not> (of_char c :: nat) < 32"
        by (auto split: if_splits)
      from less.prems cs ndq nbs lo have "cons_result c (parse_chars cs') = Some (s, rest)"
        by simp
      from cons_result_Some [OF this] obtain xs where "parse_chars cs' = Some (xs, rest)" by blast
      then show ?thesis by (rule step) (simp add: cs)
    qed
  qed
qed

lemma parse_digits_length:
  "parse_digits cs = Some (n, rest) \<Longrightarrow> length rest < length cs"
proof -
  assume a: "parse_digits cs = Some (n, rest)"
  then have ne: "takeWhile is_digit cs \<noteq> []"
    by (auto simp: parse_digits_def Let_def split: if_splits)
  then have cs: "cs \<noteq> []" by auto
  have "length (dropWhile is_digit cs) < length cs"
    using ne by (metis length_append takeWhile_dropWhile_id length_greater_0_conv less_add_same_cancel2)
  with a cs show ?thesis
    by (auto simp: parse_digits_def Let_def split: if_splits)
qed

lemma parse_number_length:
  "parse_number cs = Some (v, rest) \<Longrightarrow> length rest < length cs"
proof -
  assume a: "parse_number cs = Some (v, rest)"
  then obtain n where d: "parse_digits (if cs \<noteq> [] \<and> hd cs = CHR ''-'' then tl cs else cs) = Some (n, rest)"
    by (auto simp: parse_number_def Let_def split: option.splits if_splits)
  from parse_digits_length [OF d] show ?thesis
    by (auto split: if_splits)
qed


lemma startsWith_drop_length:
  "startsWith cs p \<Longrightarrow> p \<noteq> [] \<Longrightarrow> length (drop (length p) cs) < length cs"
  by (cases cs) (auto simp: startsWith_def)

lemma parse_length:
  "(parse_value n cs = Some (v, r) \<longrightarrow> length r < length cs)
   \<and> (parse_elements n cs = Some (xs, r) \<longrightarrow> length r < length cs)
   \<and> (parse_members n cs = Some (ms, r) \<longrightarrow> length r < length cs)"
proof (induction n arbitrary: cs v r xs ms)
  case 0
  show ?case by simp
next
  case (Suc n)
  have ihv: "\<And>cs v r. parse_value n cs = Some (v, r) \<Longrightarrow> length r < length cs"
    and ihe: "\<And>cs xs r. parse_elements n cs = Some (xs, r) \<Longrightarrow> length r < length cs"
    and ihm: "\<And>cs ms r. parse_members n cs = Some (ms, r) \<Longrightarrow> length r < length cs"
    using Suc.IH by blast+
  have v: "length r < length cs" if a: "parse_value (Suc n) cs = Some (v, r)"
  proof -
    from a obtain c t where s: "skip_ws cs = c # t"
      by (cases "skip_ws cs") auto
    have lt: "length t < length cs" by (rule skip_ws_Cons_length [OF s])
    consider (obj) "c = CHR ''{''" | (arr) "c \<noteq> CHR ''{''" "c = CHR ''[''"
      | (str) "c \<noteq> CHR ''{''" "c \<noteq> CHR ''[''" "c = dq"
      | (other) "c \<noteq> CHR ''{''" "c \<noteq> CHR ''[''" "c \<noteq> dq"
      by blast
    then show ?thesis
    proof cases
      case obj
      from a s obj obtain d t' where s2: "skip_ws t = d # t'"
        by (cases "skip_ws t") auto
      have lt2: "length t' < length t" by (rule skip_ws_Cons_length [OF s2])
      show ?thesis
      proof (cases "d = CHR ''}''")
        case True
        with a s obj s2 lt lt2 show ?thesis by auto
      next
        case False
        with a s obj s2 obtain ms' where "parse_members n (d # t') = Some (ms', r)"
          by (auto split: option.splits)
        from ihm [OF this] lt lt2 show ?thesis by simp
      qed
    next
      case arr
      from a s arr obtain d t' where s2: "skip_ws t = d # t'"
        by (cases "skip_ws t") auto
      have lt2: "length t' < length t" by (rule skip_ws_Cons_length [OF s2])
      show ?thesis
      proof (cases "d = CHR '']''")
        case True
        with a s arr s2 lt lt2 show ?thesis by auto
      next
        case False
        with a s arr s2 obtain xs' where "parse_elements n (d # t') = Some (xs', r)"
          by (auto split: option.splits)
        from ihe [OF this] lt lt2 show ?thesis by simp
      qed
    next
      case str
      with a s obtain str' where "parse_chars t = Some (str', r)"
        by (auto split: option.splits)
      from parse_chars_length [OF this] lt show ?thesis by simp
    next
      case other
      have le: "length (c # t) \<le> length cs" using lt by simp
      from a s other have
        "(startsWith (c # t) ''true'' \<and> r = drop 4 (c # t))
         \<or> (startsWith (c # t) ''false'' \<and> r = drop 5 (c # t))
         \<or> (startsWith (c # t) ''null'' \<and> r = drop 4 (c # t))
         \<or> parse_number (c # t) = Some (v, r)"
        by (auto split: if_splits)
      then show ?thesis
        using startsWith_drop_length [of "c # t" "''true''"] startsWith_drop_length [of "c # t" "''false''"]
          startsWith_drop_length [of "c # t" "''null''"] parse_number_length [of "c # t" v r] le
        by auto
    qed
  qed
  have e: "length r < length cs" if a: "parse_elements (Suc n) cs = Some (xs, r)"
  proof -
    from a obtain x t where pv: "parse_value n cs = Some (x, t)"
      by (auto split: option.splits)
    from ihv [OF pv] have lt: "length t < length cs" .
    from a pv obtain c t' where s: "skip_ws t = c # t'"
      by (cases "skip_ws t") auto
    have lt2: "length t' < length t" by (rule skip_ws_Cons_length [OF s])
    show ?thesis
    proof (cases "c = CHR '',''")
      case True
      with a pv s have "cons_result x (parse_elements n t') = Some (xs, r)" by simp
      from cons_result_Some [OF this] obtain xs' where "parse_elements n t' = Some (xs', r)" by blast
      from ihe [OF this] lt lt2 show ?thesis by simp
    next
      case False
      with a pv s lt lt2 show ?thesis by (auto split: if_splits)
    qed
  qed
  have m: "length r < length cs" if a: "parse_members (Suc n) cs = Some (ms, r)"
  proof -
    from a obtain c t where s: "skip_ws cs = c # t"
      by (cases "skip_ws cs") auto
    have lt: "length t < length cs" by (rule skip_ws_Cons_length [OF s])
    from a s have c: "c = dq" by (auto split: if_splits)
    from a s c obtain k t1 where pc: "parse_chars t = Some (k, t1)"
      by (auto split: option.splits)
    from parse_chars_length [OF pc] have lt1: "length t1 < length t" .
    from a s c pc obtain c1 t2 where s1: "skip_ws t1 = c1 # t2"
      by (cases "skip_ws t1") auto
    have lt2: "length t2 < length t1" by (rule skip_ws_Cons_length [OF s1])
    from a s c pc s1 have c1: "c1 = CHR '':''" by (auto split: if_splits)
    from a s c pc s1 c1 obtain x t3 where pv: "parse_value n t2 = Some (x, t3)"
      by (auto split: option.splits)
    from ihv [OF pv] have lt3: "length t3 < length t2" .
    from a s c pc s1 c1 pv obtain c3 t4 where s3: "skip_ws t3 = c3 # t4"
      by (cases "skip_ws t3") auto
    have lt4: "length t4 < length t3" by (rule skip_ws_Cons_length [OF s3])
    show ?thesis
    proof (cases "c3 = CHR '',''")
      case True
      with a s c pc s1 c1 pv s3 have "cons_result (k, x) (parse_members n t4) = Some (ms, r)" by simp
      from cons_result_Some [OF this] obtain ms' where "parse_members n t4 = Some (ms', r)" by blast
      from ihm [OF this] lt lt1 lt2 lt3 lt4 show ?thesis by simp
    next
      case False
      with a s c pc s1 c1 pv s3 lt lt1 lt2 lt3 lt4 show ?thesis by (auto split: if_splits)
    qed
  qed
  from v e m show ?case by blast
qed


lemmas parse_value_length = parse_length [THEN conjunct1, rule_format]

lemma fuel_step:
  "(2 * length cs + 1 \<le> n \<longrightarrow> parse_value (Suc n) cs = parse_value n cs)
   \<and> (2 * length cs + 2 \<le> n \<longrightarrow> parse_elements (Suc n) cs = parse_elements n cs)
   \<and> (2 * length cs + 2 \<le> n \<longrightarrow> parse_members (Suc n) cs = parse_members n cs)"
proof (induction n arbitrary: cs)
  case 0
  show ?case by simp
next
  case (Suc n)
  have ihv: "\<And>cs. 2 * length cs + 1 \<le> n \<Longrightarrow> parse_value (Suc n) cs = parse_value n cs"
    and ihe: "\<And>cs. 2 * length cs + 2 \<le> n \<Longrightarrow> parse_elements (Suc n) cs = parse_elements n cs"
    and ihm: "\<And>cs. 2 * length cs + 2 \<le> n \<Longrightarrow> parse_members (Suc n) cs = parse_members n cs"
    using Suc.IH by blast+
  have v: "parse_value (Suc (Suc n)) cs = parse_value (Suc n) cs" if a: "2 * length cs + 1 \<le> Suc n"
    unfolding parse_value.simps(2) [of "Suc n" cs] parse_value.simps(2) [of n cs]
  proof (intro list.case_cong if_cong option.case_cong refl, goal_cases)
    case (1 c r d r')
    from skip_ws_Cons_length [OF 1(1)] skip_ws_Cons_length [OF 1(3)] a
    have "2 * length (d # r') + 2 \<le> n" by simp
    then show ?case by (rule ihm)
  next
    case (2 c r d r')
    from skip_ws_Cons_length [OF 2(1)] skip_ws_Cons_length [OF 2(4)] a
    have "2 * length (d # r') + 2 \<le> n" by simp
    then show ?case by (rule ihe)
  qed
  have e: "parse_elements (Suc (Suc n)) cs = parse_elements (Suc n) cs" if a: "2 * length cs + 2 \<le> Suc n"
  proof -
    from a have "2 * length cs + 1 \<le> n" by simp
    then have pv: "parse_value (Suc n) cs = parse_value n cs" by (rule ihv)
    show ?thesis
      unfolding parse_elements.simps(2) [of "Suc n" cs] parse_elements.simps(2) [of n cs] pv
    proof (intro option.case_cong prod.case_cong list.case_cong if_cong refl, goal_cases)
      case (1 p x r c r')
      from 1(1,2) have "parse_value n cs = Some (x, r)" by simp
      from parse_value_length [OF this] skip_ws_Cons_length [OF 1(3)] a
      have "2 * length r' + 2 \<le> n" by simp
      then have "parse_elements (Suc n) r' = parse_elements n r'" by (rule ihe)
      then show ?case by (simp only:)
    qed
  qed
  have m: "parse_members (Suc (Suc n)) cs = parse_members (Suc n) cs" if a: "2 * length cs + 2 \<le> Suc n"
    unfolding parse_members.simps(2) [of "Suc n" cs] parse_members.simps(2) [of n cs]
  proof (intro list.case_cong if_cong option.case_cong prod.case_cong refl, goal_cases)
    case (1 c r p k r1 c1 r2)
    from 1(3,4) have "parse_chars r = Some (k, r1)" by simp
    from skip_ws_Cons_length [OF 1(1)] parse_chars_length [OF this] skip_ws_Cons_length [OF 1(5)] a
    have "2 * length r2 + 1 \<le> n" by simp
    then show ?case by (rule ihv)
  next
    case (2 c r p k r1 c1 r2 q x r3 c3 r4)
    from 2(3,4) have pc: "parse_chars r = Some (k, r1)" by simp
    from 2(7,8) have pv: "parse_value n r2 = Some (x, r3)" by simp
    from skip_ws_Cons_length [OF 2(1)] parse_chars_length [OF pc] skip_ws_Cons_length [OF 2(5)]
      parse_value_length [OF pv] skip_ws_Cons_length [OF 2(9)] a
    have "2 * length r4 + 2 \<le> n" by simp
    then have "parse_members (Suc n) r4 = parse_members n r4" by (rule ihm)
    then show ?case by (simp only:)
  qed
  from v e m show ?case by blast
qed

lemma parse_value_enough_fuel:
  "2 * length cs + 1 \<le> n \<Longrightarrow> parse_value n cs = parse_value (2 * length cs + 1) cs"
proof (induction n)
  case 0
  then show ?case by simp
next
  case (Suc n)
  show ?case
  proof (cases "2 * length cs + 1 \<le> n")
    case True
    from fuel_step [of cs n] True have "parse_value (Suc n) cs = parse_value n cs" by blast
    also from Suc.IH [OF True] have "\<dots> = parse_value (2 * length cs + 1) cs" .
    finally show ?thesis .
  next
    case False
    with Suc.prems have "Suc n = 2 * length cs + 1" by simp
    then show ?thesis by (simp only:)
  qed
qed

lemma JSON_parse_enough_fuel:
  assumes "2 * length s + 1 \<le> n"
  shows "JSON_parse s = (case parse_value n s of
                     None \<Rightarrow> None
                   | Some (v, rest) \<Rightarrow> if skip_ws rest = [] then Some v else None)"
  by (simp only: JSON_parse_def parse_value_enough_fuel [OF assms])

subsection \<open>The brace scan over serialised values\<close>

lemma scanObject_plain:
  "list_all plain_char t \<Longrightarrow>
   scanObject text (t @ rest) i d False False s = scanObject text rest (i + length t) d False False s"
  by (induction t arbitrary: i) (simp_all add: plain_char_def)

lemma scanObject_in_string:
  "list_all (\<lambda>c. c \<noteq> bslash \<and> c \<noteq> dq) t \<Longrightarrow>
   scanObject text (t @ rest) i d True False s = scanObject text rest (i + length t) d True False s"
  by (induction t arbitrary: i) simp_all

lemma hex_char_in_string: "d < 16 \<Longrightarrow> hex_char d \<noteq> bslash \<and> hex_char d \<noteq> dq"
proof -
  assume "d < 16"
  then have "hex_value (hex_char d) = Some d" by (rule hex_value_hex_char)
  moreover have "hex_value bslash = None" "hex_value dq = None"
    by (simp_all add: hex_value_def bslash_def dq_def)
  ultimately show ?thesis by auto
qed

lemma scanObject_quote_char:
  "scanObject text (quote_char c @ rest) i d True False s =
   scanObject text rest (i + length (quote_char c)) d True False s"
proof (cases "(of_char c :: nat) < 32 \<and> c \<noteq> CHR 0x08 \<and> c \<noteq> CHR 0x0C \<and> c \<noteq> CHR 0x0A
    \<and> c \<noteq> CHR 0x0D \<and> c \<noteq> CHR 0x09")
  case True
  then have ne: "c \<noteq> dq" "c \<noteq> bslash" by (auto simp: dq_def bslash_def)
  have "(of_char c :: nat) div 16 < 16"
    by (rule less_mult_imp_div_less) (use True in simp)
  then have h: "hex_char ((of_char c :: nat) div 16) \<noteq> bslash \<and> hex_char ((of_char c :: nat) div 16) \<noteq> dq"
    by (rule hex_char_in_string)
  have l: "hex_char ((of_char c :: nat) mod 16) \<noteq> bslash \<and> hex_char ((of_char c :: nat) mod 16) \<noteq> dq"
    by (intro hex_char_in_string) simp
  have z: "CHR ''0'' \<noteq> bslash" "CHR ''0'' \<noteq> dq" by (simp_all add: bslash_def dq_def)
  show ?thesis
    using True ne h l z by (simp add: quote_char_def)
next
  case False
  then show ?thesis
    by (auto simp: quote_char_def)
qed

lemma scanObject_quoted_chars:
  "scanObject text (concat (map quote_char str) @ rest) i d True False s =
   scanObject text rest (i + length (concat (map quote_char str))) d True False s"
proof (induction str arbitrary: i)
  case Nil
  show ?case by simp
next
  case (Cons c str)
  show ?case
    by (simp add: scanObject_quote_char Cons.IH add.assoc del: scanObject.simps)
qed

lemma scanObject_quote_string:
  "scanObject text (quote_string str @ rest) i d False False s =
   scanObject text rest (i + length (quote_string str)) d False False s"
proof -
  have "scanObject text (quote_string str @ rest) i d False False s =
        scanObject text (concat (map quote_char str) @ dq # rest) (i + 1) d True False s"
    by (simp add: quote_string_def)
  also have "\<dots> = scanObject text (dq # rest) (i + 1 + length (concat (map quote_char str))) d True False s"
    by (rule scanObject_quoted_chars)
  also have "\<dots> = scanObject text rest (i + length (quote_string str)) d False False s"
    by (simp add: quote_string_def add.commute add.left_commute)
  finally show ?thesis .
qed

lemma show_int_plain: "list_all plain_char (show_int i)"
proof -
  have d: "\<And>n. 0 \<le> n \<Longrightarrow> list_all plain_char (show_dec n)"
  proof -
    fix n :: int assume "0 \<le> n"
    with show_dec_props [of n] have "list_all is_digit (show_dec n)" by simp
    moreover have "\<And>c. is_digit c \<Longrightarrow> plain_char c"
      by (auto simp: is_digit_def plain_char_def bslash_def dq_def)
    ultimately show "list_all plain_char (show_dec n)"
      by (auto simp: list_all_iff)
  qed
  show ?thesis
    by (cases "i < 0") (simp_all add: show_int_def d, simp add: plain_char_def bslash_def dq_def)
qed

lemma scanObject_stringify:
  "(\<forall>i d rest. 0 < d \<longrightarrow> scanObject text (JSON_stringify v @ rest) i d False False s =
      scanObject text rest (i + length (JSON_stringify v)) d False False s)"
  "(\<forall>i d rest. 0 < d \<longrightarrow> scanObject text (stringify_elements xs @ rest) i d False False s =
      scanObject text rest (i + length (stringify_elements xs)) d False False s)"
  "(\<forall>i d rest. 0 < d \<longrightarrow> scanObject text (stringify_members ms @ rest) i d False False s =
      scanObject text rest (i + length (stringify_members ms)) d False False s)"
proof (induction v and xs and ms rule: JSON_stringify_stringify_elements_stringify_members.induct)
  case 1
  show ?case by (simp add: bslash_def dq_def)
next
  case (2 b)
  show ?case by (simp add: bslash_def dq_def)
next
  case (3 n)
  show ?case using scanObject_plain [OF show_int_plain] by simp
next
  case (4 str)
  show ?case using scanObject_quote_string by simp
next
  case (5 xs)
  then show ?case by (simp add: bslash_def dq_def add.assoc)
next
  case (6 ms)
  then show ?case by (simp add: bslash_def dq_def add.assoc)
next
  case 7
  show ?case by simp
next
  case (8 x)
  then show ?case by (simp add: add.assoc)
next
  case (9 x y ys)
  then show ?case by (simp add: bslash_def dq_def add.assoc)
next
  case 10
  show ?case by simp
next
  case (11 k v)
  then show ?case by (simp add: scanObject_quote_string bslash_def dq_def add.assoc del: scanObject.simps)
     (simp add: bslash_def dq_def add.assoc)
next
  case (12 k v m ms)
  then show ?case by (simp add: scanObject_quote_string bslash_def dq_def add.assoc del: scanObject.simps)
     (simp add: bslash_def dq_def add.assoc)
qed

subsection \<open>Observation round trip\<close>

lemma extractFirstJsonObject_stringify:
  assumes "list_all plain_char prefix"
  shows "extractFirstJsonObject (prefix @ JSON_stringify (JObj ms) @ rest) = Some (JSON_stringify (JObj ms))"
proof -
  let ?text = "prefix @ JSON_stringify (JObj ms) @ rest"
  let ?p = "length prefix"
  let ?m = "stringify_members ms"
  have "scanObject ?text ?text 0 0 False False (- 1) =
        scanObject ?text (JSON_stringify (JObj ms) @ rest) ?p 0 False False (- 1)"
    using scanObject_plain [OF assms, of ?text "JSON_stringify (JObj ms) @ rest" 0 0 "- 1"] by simp
  also have "\<dots> = scanObject ?text (?m @ CHR ''}'' # rest) (?p + 1) 1 False False (int ?p)"
    by (simp add: bslash_def dq_def)
  also have "\<dots> = scanObject ?text (CHR ''}'' # rest) (?p + 1 + length ?m) 1 False False (int ?p)"
    using scanObject_stringify(3) [of ?text ms "int ?p"] by simp
  also have "\<dots> = Some (slice ?text (int ?p) (?p + 1 + length ?m + 1))"
    by (simp add: bslash_def dq_def)
  also have "slice ?text (int ?p) (?p + 1 + length ?m + 1) = JSON_stringify (JObj ms)"
    by (simp add: slice_def)
  finally show ?thesis by (simp add: extractFirstJsonObject_def)
qed

lemma reparse_stringify:
  assumes "wf_json (JObj ms)"
  shows "reparseObservation (''TOOL_RESULT'' @ [CHR 0x0A] @ JSON_stringify (JObj ms)) = Some (JObj ms)"
proof -
  have "list_all plain_char (''TOOL_RESULT'' @ [CHR 0x0A])"
    by (simp add: plain_char_def bslash_def dq_def)
  from extractFirstJsonObject_stringify [OF this, of ms "[]"]
  have e: "extractFirstJsonObject (''TOOL_RESULT'' @ [CHR 0x0A] @ JSON_stringify (JObj ms)) = Some (JSON_stringify (JObj ms))"
    by (simp only: append_assoc append_Nil2)
  show ?thesis
    unfolding reparseObservation_def e
    by (simp add: JSON_parse_stringify [OF assms] del: JSON_stringify.simps)
qed


lemma payload_keys:
  "\<not> is_array_index ''tool''" "\<not> is_array_index ''ok''" "\<not> is_array_index ''output''"
  "\<not> is_array_index ''error''" "\<not> is_array_index ''metadata''"
  by (simp_all add: is_array_index_def is_digit_def)

text \<open>
  Claim C6 as stated fails on the code: an empty error string is falsy, so the payload carries
  \<^verbatim>\<open>null\<close> for it and the re-parsed error differs from the original.
\<close>

theorem observation_roundtrip_counterexample:
  \<open>reparseObservation (formatToolObservation ''t''
       (Some (JObj [(''ok'', JBool True), (''output'', JStr ''done''), (''error'', JStr '''')])))
     = Some (JObj [(''tool'', JStr ''t''), (''ok'', JBool True), (''output'', JStr ''done''), (''error'', JNull)])\<close>
  by code_simp

text \<open>
  Claim C6, amended. For every tool result whose \<^verbatim>\<open>ok\<close> is a boolean, whose \<^verbatim>\<open>output\<close>
  is a string, whose \<^verbatim>\<open>error\<close> is \<^verbatim>\<open>null\<close> or a non-empty string and whose
  \<^verbatim>\<open>metadata\<close> is missing or an object of JSON values, re-parsing the object found in the
  text of \<open>formatToolObservation\<close> gives back the same \<^verbatim>\<open>ok\<close>, \<^verbatim>\<open>output\<close>, \<^verbatim>\<open>error\<close>
  and \<^verbatim>\<open>metadata\<close>.
\<close>

theorem observation_roundtrip:
  assumes "js_prop result ''ok'' = Some (JBool ok)"
    and "js_prop result ''output'' = Some (JStr output)"
    and "js_prop result ''error'' = Some JNull \<or> (\<exists>e. e \<noteq> [] \<and> js_prop result ''error'' = Some (JStr e))"
    and "js_prop result ''metadata'' = None
         \<or> (\<exists>m. js_prop result ''metadata'' = Some (JObj m) \<and> wf_json (JObj m))"
  shows "\<exists>parsed. reparseObservation (formatToolObservation toolName (Some result)) = Some parsed
     \<and> js_prop parsed ''tool'' = Some (JStr toolName)
     \<and> js_prop parsed ''ok'' = js_prop result ''ok''
     \<and> js_prop parsed ''output'' = js_prop result ''output''
     \<and> js_prop parsed ''error'' = js_prop result ''error''
     \<and> js_prop parsed ''metadata'' = js_prop result ''metadata''"
proof -
  from assms(1) obtain rs where r: "result = JObj rs" by (cases result) auto
  define err where "err = (case js_prop result ''error'' of Some e \<Rightarrow> e | None \<Rightarrow> JNull)"
  define meta where "meta = (case js_prop result ''metadata'' of Some m \<Rightarrow> [(''metadata'', m)] | None \<Rightarrow> [])"
  define payload where "payload = [(''tool'', JStr toolName), (''ok'', JBool ok), (''output'', JStr output),
      (''error'', err)] @ meta"
  have fmt: "formatToolObservation toolName (Some result) = ''TOOL_RESULT'' @ [CHR 0x0A] @ JSON_stringify (JObj payload)"
    using assms
    by (auto simp: formatToolObservation_def r payload_def err_def meta_def string_or_empty_def Let_def)
  have wf_err: "wf_json err"
    using assms(3) by (auto simp: err_def)
  have wf: "wf_json (JObj payload)"
    using assms(4) wf_err
    by (auto simp: payload_def meta_def object_order_def payload_keys)
  have props: "js_prop (JObj payload) ''tool'' = Some (JStr toolName)"
    "js_prop (JObj payload) ''ok'' = js_prop result ''ok''"
    "js_prop (JObj payload) ''output'' = js_prop result ''output''"
    "js_prop (JObj payload) ''error'' = js_prop result ''error''"
    "js_prop (JObj payload) ''metadata'' = js_prop result ''metadata''"
    using assms by (auto simp: payload_def meta_def err_def)
  from reparse_stringify [OF wf] fmt props show ?thesis
    by simp
qed

theorem observation_roundtrip_witness:
  "\<exists>parsed. reparseObservation (formatToolObservation ''read_file'' (Some sampleResult)) = Some parsed
     \<and> js_prop parsed ''ok'' = Some (JBool False)
     \<and> js_prop parsed ''output'' = Some (JStr ''a\<newline>b'')
     \<and> js_prop parsed ''error'' = Some (JStr ''no {file}'')
     \<and> js_prop parsed ''metadata'' = Some (JObj [(''1'', JNum (- 20)), (''path'', JArr [JStr ''x'', JNull])])"
proof -
  have wf: "wf_json (JObj [(''1'', JNum (- 20)), (''path'', JArr [JStr ''x'', JNull])])"
    by code_simp
  have p: "js_prop sampleResult ''ok'' = Some (JBool False)"
    "js_prop sampleResult ''output'' = Some (JStr ''a\<newline>b'')"
    "js_prop sampleResult ''error'' = Some (JStr ''no {file}'')"
    "js_prop sampleResult ''metadata'' = Some (JObj [(''1'', JNum (- 20)), (''path'', JArr [JStr ''x'', JNull])])"
    by (simp_all add: sampleResult_def)
  have e: "js_prop sampleResult ''error'' = Some JNull
      \<or> (\<exists>e. e \<noteq> [] \<and> js_prop sampleResult ''error'' = Some (JStr e))"
    using p(3) by simp
  have m: "js_prop sampleResult ''metadata'' = None
      \<or> (\<exists>m. js_prop sampleResult ''metadata'' = Some (JObj m) \<and> wf_json (JObj m))"
    using p(4) wf by blast
  from observation_roundtrip [OF p(1) p(2) e m, of "''read_file''"] p
  show ?thesis by auto
qed

subsection \<open>Repeat signature\<close>




end
